theory Spec2Isabelle
  imports Complex_Main "HOL-Library.Word"
begin

unbundle bit_operations_syntax

section \<open>Data model shared by both revisions of the client\<close>

text \<open>
  The repository holds two revisions of the class \<open>SledgeClient\<close>: the single-channel
  revision (one broadcast kind, \<open>Synchronize\<close>) and the two-channel revision
  (\<open>SynchronizeShared\<close>, \<open>SynchronizeAdmin\<close> and a connection status).  Definitions of
  the first carry the suffix \<open>1\<close>, those of the second the suffix \<open>2\<close>; code that is
  textually the same in both is defined once, on the common part of the state.

  Payloads (request data, response bodies, broadcast events) are opaque: one type
  variable \<open>'v\<close> stands for them.  A JavaScript function value is identified by a number
  (\<open>cb_id\<close>), which is what \<open>!==\<close> compares; what the function does when called is given by
  a behaviour table.
\<close>

type_synonym token = string
type_synonym promise_id = nat
type_synonym cb_id = nat

datatype error = Error string | RangeError string

datatype 's outcome = Returned 's | Threw error 's

record 'v response =
  returnId :: token
  body :: 'v

datatype 'v promise = Pending | Fulfilled 'v

datatype SledgeStatus = Connecting | Connected | Reconnecting | Disconnected

text \<open>
  The effects of the client that an observer can see, in the order they happen:
  an envelope handed to \<open>socket.emit\<close>, a resolver stored in the pending table, a call of
  a stored resolver, a call of a subscriber.
\<close>

datatype 'v effect =
    Emitted string 'v token
  | Registered token promise_id
  | Resolved promise_id "'v response"
  | Notified cb_id 'v
  | NotifiedStatus cb_id SledgeStatus

record 'v client_base =
  responseResolvers :: "token \<rightharpoonup> promise_id"
  promises :: "'v response promise list"
  trace :: "'v effect list"

text \<open>
  A subscriber's behaviour: the methods of the client that it calls while it runs (given
  per revision below), in order, and whether it then throws or returns.  Effects made
  before a throw stay, as in JavaScript.  A subscriber that never returns is not
  considered.  A behaviour table gives the behaviour of every function value during one
  pass; the theorems hold for every table, so what a subscriber does may depend on the
  event and on the state it is called in.  A function that is registered twice does the
  same at both of its calls.
\<close>

record 'call behaviour =
  calls :: "'call list"
  throws :: "error option"

section \<open>Pending-request table and response dispatcher\<close>

text \<open>
  \<open>resolve\<close> of promise \<open>p\<close>, the function that \<open>sendAndAwait\<close> stores in the table.
  A promise settles at most once: calling \<open>resolve\<close> on a settled promise changes nothing.
\<close>

definition resolve :: "promise_id \<Rightarrow> 'v response \<Rightarrow> ('v, 'm) client_base_scheme \<Rightarrow> ('v, 'm) client_base_scheme" where
  "resolve p data c =
     c\<lparr>promises :=
          (if p < length (promises c) \<and> promises c ! p = Pending
           then (promises c)[p := Fulfilled data] else promises c),
       trace := trace c @ [Resolved p data]\<rparr>"

text \<open>
  The listener that \<open>setupResolverDispatch\<close> installs for a response event name.
  \<^verbatim>\<open>
    let resolver = this.responseResolvers.get(data.returnId);
    if (resolver) { resolver(data); this.responseResolvers.delete(data.returnId); }
    else { throw new Error("Got response with unknown returnId: " + data.returnId); }
  \<close>
\<close>

definition setupResolverDispatch :: "'v response \<Rightarrow> ('v, 'm) client_base_scheme \<Rightarrow> ('v, 'm) client_base_scheme outcome" where
  "setupResolverDispatch data c =
     (case responseResolvers c (returnId data) of
        Some resolver \<Rightarrow>
          (let c1 = resolve resolver data c
           in Returned (c1\<lparr>responseResolvers := (responseResolvers c1)(returnId data := None)\<rparr>))
      | None \<Rightarrow> Threw (Error (''Got response with unknown returnId: '' @ returnId data)) c)"

text \<open>
  \<open>sendAndAwait\<close>, with the token already generated:
  \<^verbatim>\<open>
    this.socket.emit(eventName, {...data, returnId});
    return new Promise( (resolve, reject) => {
      this.responseResolvers.set(returnId, resolve);
    });
  \<close>
  \<open>new Promise\<close> allocates a pending promise and runs the executor at once.
\<close>

definition socket_emit :: "string \<Rightarrow> 'v \<Rightarrow> token \<Rightarrow> ('v, 'm) client_base_scheme \<Rightarrow> ('v, 'm) client_base_scheme" where
  "socket_emit eventName data rid c = c\<lparr>trace := trace c @ [Emitted eventName data rid]\<rparr>"

definition new_Promise :: "('v, 'm) client_base_scheme \<Rightarrow> promise_id \<times> ('v, 'm) client_base_scheme" where
  "new_Promise c = (length (promises c), c\<lparr>promises := promises c @ [Pending]\<rparr>)"

definition responseResolvers_set :: "token \<Rightarrow> promise_id \<Rightarrow> ('v, 'm) client_base_scheme \<Rightarrow> ('v, 'm) client_base_scheme" where
  "responseResolvers_set rid p c =
     c\<lparr>responseResolvers := (responseResolvers c)(rid \<mapsto> p),
       trace := trace c @ [Registered rid p]\<rparr>"

definition sendAndAwait :: "token \<Rightarrow> string \<Rightarrow> 'v \<Rightarrow> ('v, 'm) client_base_scheme \<Rightarrow> promise_id \<times> ('v, 'm) client_base_scheme" where
  "sendAndAwait rid eventName data c =
     (let c1 = socket_emit eventName data rid c;
          (p, c2) = new_Promise c1
      in (p, responseResolvers_set rid p c2))"

section \<open>Token generation\<close>

definition hex_digit :: "nat \<Rightarrow> char" where
  "hex_digit d = ''0123456789abcdef'' ! (d mod 16)"

function toString16_nat :: "nat \<Rightarrow> string" where
  "toString16_nat n =
     (if n < 16 then [hex_digit n] else toString16_nat (n div 16) @ [hex_digit (n mod 16)])"
  by pat_completeness auto
termination
  by (relation "measure id") auto

declare toString16_nat.simps [simp del]

text \<open>\<open>Number.prototype.toString(16)\<close> on an integer: a minus sign, then the digits.\<close>

definition toString16 :: "int \<Rightarrow> string" where
  "toString16 i = (if i < 0 then CHR ''-'' # toString16_nat (nat (- i)) else toString16_nat (nat i))"

text \<open>\<open>s.slice(-6)\<close>: the last six characters, the whole string when it is shorter.\<close>

definition slice_neg6 :: "string \<Rightarrow> string" where
  "slice_neg6 s = drop (length s - 6) s"

text \<open>
  The operands of \<open>&\<close> are converted to signed 32-bit integers; \<open>~0xFF\<close> is \<open>-256\<close>.
\<close>

definition ToInt32 :: "int \<Rightarrow> int" where
  "ToInt32 x = sint (word_of_int x :: 32 word)"

text \<open>
  Single-channel revision:
  \<^verbatim>\<open>
    let entropy = (Date.now() & ~0xFF) + Math.floor(Math.random()*256);
    return entropy.toString(16);
  \<close>
  \<open>now\<close> is the value of \<open>Date.now()\<close>, \<open>rnd\<close> the value of \<open>Math.random()\<close>.  The product
  with 256 and the sum are exact in double precision, so real arithmetic computes them.
\<close>

definition generateUniqueReturnId1 :: "int \<Rightarrow> real \<Rightarrow> token" where
  "generateUniqueReturnId1 now rnd =
     (let entropy = (ToInt32 now AND NOT 255) + \<lfloor>rnd * 256\<rfloor>
      in toString16 entropy)"

text \<open>
  Two-channel revision:
  \<^verbatim>\<open>
    return Date.now().toString(16).slice(-6) + Math.random().toString(16).slice(-6);
  \<close>
  \<open>rnd16\<close> is the text that \<open>Math.random().toString(16)\<close> evaluates to.
\<close>

definition generateUniqueReturnId2 :: "int \<Rightarrow> string \<Rightarrow> token" where
  "generateUniqueReturnId2 now rnd16 = slice_neg6 (toString16 now) @ slice_neg6 rnd16"

section \<open>The statement \<open>for (let x of array) { if (x) x(argument); }\<close>\<close>

text \<open>
  The array iterator keeps an index and reads the array's length and the element afresh at
  each step, so it sees what the calls do to the array during the loop: the holes left by
  \<open>delete\<close> and the elements added by \<open>push\<close>.  A hole reads as \<open>undefined\<close> and is
  skipped by the guard.  An exception leaves the loop.  The loop need not end (a subscriber
  may add a subscriber at every call): not returning is the value \<open>None\<close>.

  \<open>arr\<close> reads the array being iterated from the state, \<open>call\<close> is the call of one
  element.
\<close>

partial_function (option) for_of :: "('s \<Rightarrow> 'a option list) \<Rightarrow> ('a \<Rightarrow> 's \<Rightarrow> 's outcome) \<Rightarrow> nat \<Rightarrow> 's \<Rightarrow> 's outcome option" where
  "for_of arr call i s =
     (if i < length (arr s) then
        (case arr s ! i of
           None \<Rightarrow> for_of arr call (Suc i) s
         | Some x \<Rightarrow>
             (case call x s of
                Returned s' \<Rightarrow> for_of arr call (Suc i) s'
              | Threw err s' \<Rightarrow> Some (Threw err s')))
      else Some (Returned s))"

section \<open>Single-channel revision\<close>

record 'v client1 = "'v client_base" +
  synchronizeSubscribers :: "cb_id option list"

text \<open>
  The array \<open>synchronizeSubscribers\<close>: \<open>None\<close> is a hole left by \<open>delete\<close>.  The
  unsubscribe closure returned by \<open>subscribeSynchronize\<close> captures the index \<open>i\<close>.
\<close>

datatype cap1 = UnsubscribeSynchronize nat

definition SledgeClient1 :: "'v client1" where
  "SledgeClient1 =
     \<lparr>responseResolvers = Map.empty, promises = [], trace = [], synchronizeSubscribers = []\<rparr>"

definition sendAndAwait1 :: "int \<Rightarrow> real \<Rightarrow> string \<Rightarrow> 'v \<Rightarrow> 'v client1 \<Rightarrow> promise_id \<times> 'v client1" where
  "sendAndAwait1 now rnd eventName data c =
     (let returnId = generateUniqueReturnId1 now rnd
      in sendAndAwait returnId eventName data c)"

datatype send_method1 =
    SendAddHack | SendAddJudge | SendAddSuperlative | SendAuthenticate1 | SendLogin
  | SendRateHack1 | SendRankSuperlative1 | SendSetSynchronize

text \<open>
  One send method per request kind, each \<open>return this.sendAndAwait("<Kind>", data)\<close>.
\<close>

fun eventName1 :: "send_method1 \<Rightarrow> string" where
  "eventName1 SendAddHack = ''AddHack''"
| "eventName1 SendAddJudge = ''AddJudge''"
| "eventName1 SendAddSuperlative = ''AddSuperlative''"
| "eventName1 SendAuthenticate1 = ''Authenticate''"
| "eventName1 SendLogin = ''Login''"
| "eventName1 SendRateHack1 = ''RateHack''"
| "eventName1 SendRankSuperlative1 = ''RankSuperlative''"
| "eventName1 SendSetSynchronize = ''SetSynchronize''"

definition send1 :: "send_method1 \<Rightarrow> int \<Rightarrow> real \<Rightarrow> 'v \<Rightarrow> 'v client1 \<Rightarrow> promise_id \<times> 'v client1" where
  "send1 m now rnd data c = sendAndAwait1 now rnd (eventName1 m) data c"

text \<open>
  \<^verbatim>\<open>
    let i = this.synchronizeSubscribers.length;
    this.synchronizeSubscribers[i] = notify;
    return () => { delete this.synchronizeSubscribers[i]; };
  \<close>
  The value a JavaScript call returns is modelled as an option: \<open>None\<close> is \<open>undefined\<close>.
\<close>

definition subscribeSynchronize :: "cb_id \<Rightarrow> 'v client1 \<Rightarrow> cap1 option \<times> 'v client1" where
  "subscribeSynchronize notify c =
     (let i = length (synchronizeSubscribers c)
      in (Some (UnsubscribeSynchronize i),
          c\<lparr>synchronizeSubscribers := synchronizeSubscribers c @ [Some notify]\<rparr>))"

fun unsubscribe1 :: "cap1 \<Rightarrow> 'v client1 \<Rightarrow> 'v client1" where
  "unsubscribe1 (UnsubscribeSynchronize i) c =
     c\<lparr>synchronizeSubscribers := (synchronizeSubscribers c)[i := None]\<rparr>"

text \<open>
  What a subscriber can call while it runs: an unsubscribe closure, \<open>subscribeSynchronize\<close>,
  or a send method (with the clock and the random draw of that call).
\<close>

datatype 'v call1 =
    CallUnsubscribe1 cap1
  | CallSubscribeSynchronize cb_id
  | CallSend1 send_method1 int real 'v

fun run_call1 :: "'v call1 \<Rightarrow> 'v client1 \<Rightarrow> 'v client1" where
  "run_call1 (CallUnsubscribe1 u) c = unsubscribe1 u c"
| "run_call1 (CallSubscribeSynchronize notify) c = snd (subscribeSynchronize notify c)"
| "run_call1 (CallSend1 m now rnd data) c = snd (send1 m now rnd data c)"

text \<open>The call \<open>notify(e)\<close> of one subscriber.\<close>

definition call_subscriber1 :: "(cb_id \<Rightarrow> 'v call1 behaviour) \<Rightarrow> 'v \<Rightarrow> cb_id \<Rightarrow> 'v client1 \<Rightarrow> 'v client1 outcome" where
  "call_subscriber1 beh e notify c =
     (let c1 = c\<lparr>trace := trace c @ [Notified notify e]\<rparr>;
          c2 = fold run_call1 (calls (beh notify)) c1
      in case throws (beh notify) of None \<Rightarrow> Returned c2 | Some err \<Rightarrow> Threw err c2)"

text \<open>
  The listener for \<open>Synchronize\<close>:
  \<^verbatim>\<open>
    for (let notify of this.synchronizeSubscribers) { if (notify) notify(e); }
  \<close>
  The field \<open>synchronizeSubscribers\<close> is assigned in the constructor only, so the array
  being iterated is the array in the field.  \<open>Synchronize_loop\<close> is the loop from index
  \<open>i\<close> on.
\<close>

definition Synchronize_loop :: "(cb_id \<Rightarrow> 'v call1 behaviour) \<Rightarrow> 'v \<Rightarrow> nat \<Rightarrow> 'v client1 \<Rightarrow> 'v client1 outcome option" where
  "Synchronize_loop beh e i c = for_of synchronizeSubscribers (call_subscriber1 beh e) i c"

definition on_Synchronize :: "(cb_id \<Rightarrow> 'v call1 behaviour) \<Rightarrow> 'v \<Rightarrow> 'v client1 \<Rightarrow> 'v client1 outcome option" where
  "on_Synchronize beh e c = Synchronize_loop beh e 0 c"

section \<open>Two-channel revision\<close>

record 'v client2 = "'v client_base" +
  status :: SledgeStatus
  syncSharedSubs :: "cb_id list"
  syncAdminSubs :: "cb_id list"
  statusSubscribers :: "cb_id list"

text \<open>The unsubscribe closure returned by \<open>subscribeStatus\<close> captures \<open>notify\<close>.\<close>

datatype cap2 = UnsubscribeStatus cb_id

definition SledgeClient2 :: "'v client2" where
  "SledgeClient2 =
     \<lparr>responseResolvers = Map.empty, promises = [], trace = [],
      status = Connecting, syncSharedSubs = [], syncAdminSubs = [], statusSubscribers = []\<rparr>"

definition sendAndAwait2 :: "int \<Rightarrow> string \<Rightarrow> string \<Rightarrow> 'v \<Rightarrow> 'v client2 \<Rightarrow> promise_id \<times> 'v client2" where
  "sendAndAwait2 now rnd16 eventName data c =
     (let returnId = generateUniqueReturnId2 now rnd16
      in sendAndAwait returnId eventName data c)"

datatype send_method2 =
    SendAddRow | SendAuthenticate2 | SendModifyRow | SendRateHack2 | SendRankSuperlative2
  | SendSetJudgeHackPriority | SendSetSynchronizeAdmin | SendSetSynchronizeShared

fun eventName2 :: "send_method2 \<Rightarrow> string" where
  "eventName2 SendAddRow = ''AddRow''"
| "eventName2 SendAuthenticate2 = ''Authenticate''"
| "eventName2 SendModifyRow = ''ModifyRow''"
| "eventName2 SendRateHack2 = ''RateHack''"
| "eventName2 SendRankSuperlative2 = ''RankSuperlative''"
| "eventName2 SendSetJudgeHackPriority = ''SetJudgeHackPriority''"
| "eventName2 SendSetSynchronizeAdmin = ''SetSynchronizeAdmin''"
| "eventName2 SendSetSynchronizeShared = ''SetSynchronizeShared''"

definition send2 :: "send_method2 \<Rightarrow> int \<Rightarrow> string \<Rightarrow> 'v \<Rightarrow> 'v client2 \<Rightarrow> promise_id \<times> 'v client2" where
  "send2 m now rnd16 data c = sendAndAwait2 now rnd16 (eventName2 m) data c"

text \<open>
  \<^verbatim>\<open>
    this.statusSubscribers.push(notify);
    return () => {
      this.statusSubscribers = this.statusSubscribers.filter(n => n!==notify);
    }
  \<close>
\<close>

definition subscribeStatus :: "cb_id \<Rightarrow> 'v client2 \<Rightarrow> cap2 option \<times> 'v client2" where
  "subscribeStatus notify c =
     (Some (UnsubscribeStatus notify), c\<lparr>statusSubscribers := statusSubscribers c @ [notify]\<rparr>)"

fun unsubscribe2 :: "cap2 \<Rightarrow> 'v client2 \<Rightarrow> 'v client2" where
  "unsubscribe2 (UnsubscribeStatus notify) c =
     c\<lparr>statusSubscribers := filter (\<lambda>n. n \<noteq> notify) (statusSubscribers c)\<rparr>"

text \<open>
  \<open>subscribeSyncAdmin\<close> and \<open>subscribeSyncShared\<close> push and have no \<open>return\<close> statement.
\<close>

definition subscribeSyncAdmin :: "cb_id \<Rightarrow> 'v client2 \<Rightarrow> cap2 option \<times> 'v client2" where
  "subscribeSyncAdmin notify c = (None, c\<lparr>syncAdminSubs := syncAdminSubs c @ [notify]\<rparr>)"

definition subscribeSyncShared :: "cb_id \<Rightarrow> 'v client2 \<Rightarrow> cap2 option \<times> 'v client2" where
  "subscribeSyncShared notify c = (None, c\<lparr>syncSharedSubs := syncSharedSubs c @ [notify]\<rparr>)"

text \<open>
  What a subscriber can call while it runs: an unsubscribe closure, a subscribe method, or a
  send method (with the clock and the random text of that call).
\<close>

datatype 'v call2 =
    CallUnsubscribe2 cap2
  | CallSubscribeStatus cb_id
  | CallSubscribeSyncAdmin cb_id
  | CallSubscribeSyncShared cb_id
  | CallSend2 send_method2 int string 'v

fun run_call2 :: "'v call2 \<Rightarrow> 'v client2 \<Rightarrow> 'v client2" where
  "run_call2 (CallUnsubscribe2 u) c = unsubscribe2 u c"
| "run_call2 (CallSubscribeStatus notify) c = snd (subscribeStatus notify c)"
| "run_call2 (CallSubscribeSyncAdmin notify) c = snd (subscribeSyncAdmin notify c)"
| "run_call2 (CallSubscribeSyncShared notify) c = snd (subscribeSyncShared notify c)"
| "run_call2 (CallSend2 m now rnd16 data) c = snd (send2 m now rnd16 data c)"

text \<open>The call \<open>notify(e)\<close> of one broadcast subscriber.\<close>

definition call_subscriber2 :: "(cb_id \<Rightarrow> 'v call2 behaviour) \<Rightarrow> 'v \<Rightarrow> cb_id \<Rightarrow> 'v client2 \<Rightarrow> 'v client2 outcome" where
  "call_subscriber2 beh e notify c =
     (let c1 = c\<lparr>trace := trace c @ [Notified notify e]\<rparr>;
          c2 = fold run_call2 (calls (beh notify)) c1
      in case throws (beh notify) of None \<Rightarrow> Returned c2 | Some err \<Rightarrow> Threw err c2)"

text \<open>
  The listeners for \<open>SynchronizeShared\<close> and \<open>SynchronizeAdmin\<close>:
  \<^verbatim>\<open>
    for (let notify of this.syncSharedSubs) { if (notify) notify(e); }
    for (let notify of this.syncAdminSubs) { if (notify) notify(e); }
  \<close>
  Both fields are assigned in the constructor only, so the array being iterated is the
  array in the field; it has no holes.
\<close>

definition SynchronizeShared_loop :: "(cb_id \<Rightarrow> 'v call2 behaviour) \<Rightarrow> 'v \<Rightarrow> nat \<Rightarrow> 'v client2 \<Rightarrow> 'v client2 outcome option" where
  "SynchronizeShared_loop beh e i c =
     for_of (\<lambda>c. map Some (syncSharedSubs c)) (call_subscriber2 beh e) i c"

definition on_SynchronizeShared :: "(cb_id \<Rightarrow> 'v call2 behaviour) \<Rightarrow> 'v \<Rightarrow> 'v client2 \<Rightarrow> 'v client2 outcome option" where
  "on_SynchronizeShared beh e c = SynchronizeShared_loop beh e 0 c"

definition SynchronizeAdmin_loop :: "(cb_id \<Rightarrow> 'v call2 behaviour) \<Rightarrow> 'v \<Rightarrow> nat \<Rightarrow> 'v client2 \<Rightarrow> 'v client2 outcome option" where
  "SynchronizeAdmin_loop beh e i c =
     for_of (\<lambda>c. map Some (syncAdminSubs c)) (call_subscriber2 beh e) i c"

definition on_SynchronizeAdmin :: "(cb_id \<Rightarrow> 'v call2 behaviour) \<Rightarrow> 'v \<Rightarrow> 'v client2 \<Rightarrow> 'v client2 outcome option" where
  "on_SynchronizeAdmin beh e c = SynchronizeAdmin_loop beh e 0 c"










section \<open>Persistence: \<open>DatabaseConnection.addHack\<close>\<close>

record Hack =
  hack_id :: "int option"
  name :: string
  description :: string
  location :: int

datatype sql_value = SqlText string | SqlInteger int | SqlNull

text \<open>
  A row of the table \<open>hacks\<close>: id, name, description, location, all \<open>NOT NULL\<close>; the id
  is the integer primary key.
\<close>

record hacks_row =
  row_id :: int
  row_name :: sql_value
  row_description :: sql_value
  row_location :: sql_value

record database =
  hacks :: "hacks_row list"

text \<open>
  The statement text that \<open>addHack\<close> prepares:
  \<^verbatim>\<open>
    "INSERT INTO hacks(name, description, location)" +"VALUES (?,?,?);"
  \<close>
\<close>

definition addHack_sql :: string where
  "addHack_sql = ''INSERT INTO hacks(name, description, location)'' @ ''VALUES (?,?,?);''"

definition placeholders :: "string \<Rightarrow> nat" where
  "placeholders sql = count_list sql CHR ''?''"

text \<open>
  The statement executed with its three parameters bound: a \<open>NULL\<close> violates the
  \<open>NOT NULL\<close> constraint of its column; otherwise a row is added under the next row id.
\<close>

fun insert_hacks :: "sql_value list \<Rightarrow> database \<Rightarrow> database outcome" where
  "insert_hacks [n, d, l] db =
     (if n = SqlNull \<or> d = SqlNull \<or> l = SqlNull
      then Threw (Error ''SQLITE_CONSTRAINT_NOTNULL'') db
      else Returned (db\<lparr>hacks := hacks db @
        [\<lparr>row_id = (if hacks db = [] then 1 else Max (set (map row_id (hacks db))) + 1),
          row_name = n, row_description = d, row_location = l\<rparr>]\<rparr>))"
| "insert_hacks vs db = Threw (RangeError ''wrong number of bound values'') db"

text \<open>
  \<open>Statement.run\<close> of the SQLite binding, given an array of anonymous parameters: the
  binding rejects a call whose number of values differs from the number of placeholders
  of the statement, before anything is executed.
\<close>

definition stmt_run :: "string \<Rightarrow> (sql_value list \<Rightarrow> database \<Rightarrow> database outcome) \<Rightarrow> sql_value list \<Rightarrow> database \<Rightarrow> database outcome" where
  "stmt_run sql exec params db =
     (if length params < placeholders sql
      then Threw (RangeError ''Too few parameter values were provided'') db
      else if placeholders sql < length params
      then Threw (RangeError ''Too many parameter values were provided'') db
      else exec params db)"

text \<open>
  \<^verbatim>\<open>
    let stmt = this.sql.prepare("INSERT INTO hacks(name, description, location)" +"VALUES (?,?,?);");
    stmt.run([hack.name, hack.description]);
  \<close>
\<close>

definition addHack_params :: "Hack \<Rightarrow> sql_value list" where
  "addHack_params hack = [SqlText (name hack), SqlText (description hack)]"

definition addHack :: "Hack \<Rightarrow> database \<Rightarrow> database outcome" where
  "addHack hack db = stmt_run addHack_sql insert_hacks (addHack_params hack) db"

section \<open>Auxiliary notions for the statements\<close>

text \<open>
  The pending table is in order when every stored resolver belongs to a promise that
  exists and is still pending, and no promise has its resolver stored under two tokens.
\<close>

definition pending_ok :: "('v, 'm) client_base_scheme \<Rightarrow> bool" where
  "pending_ok c \<longleftrightarrow>
     (\<forall>t p. responseResolvers c t = Some p \<longrightarrow> p < length (promises c) \<and> promises c ! p = Pending) \<and>
     (\<forall>t t' p. responseResolvers c t = Some p \<and> responseResolvers c t' = Some p \<longrightarrow> t = t')"

text \<open>The subscribers of an array with holes, in order.\<close>

fun registered :: "cb_id option list \<Rightarrow> cb_id list" where
  "registered [] = []"
| "registered (None # xs) = registered xs"
| "registered (Some d # xs) = d # registered xs"


text \<open>
  Behaviour tables for the examples: a subscriber that only returns; subscribers of which
  the listed ones throw; subscribers of which one makes one call; subscribers of which one
  makes one call and the listed ones throw.
\<close>

definition quiet :: "cb_id \<Rightarrow> 'call behaviour" where
  "quiet d = \<lparr>calls = [], throws = None\<rparr>"

definition throwing :: "cb_id list \<Rightarrow> cb_id \<Rightarrow> 'call behaviour" where
  "throwing ts d = \<lparr>calls = [], throws = (if d \<in> set ts then Some (Error ''boom'') else None)\<rparr>"


definition calling_and_throwing :: "cb_id \<Rightarrow> 'call \<Rightarrow> cb_id list \<Rightarrow> cb_id \<Rightarrow> 'call behaviour" where
  "calling_and_throwing who a ts d =
     \<lparr>calls = (if d = who then [a] else []),
      throws = (if d \<in> set ts then Some (Error ''boom'') else None)\<rparr>"

text \<open>Clients for the examples, built with the subscribe methods.\<close>

definition three_subscribers1 :: "nat client1" where
  "three_subscribers1 =
     snd (subscribeSynchronize 3 (snd (subscribeSynchronize 2 (snd (subscribeSynchronize 1 SledgeClient1)))))"

definition three_subscribers2 :: "nat client2" where
  "three_subscribers2 =
     snd (subscribeSyncAdmin 6 (snd (subscribeSyncAdmin 5 (snd (subscribeSyncAdmin 4
       (snd (subscribeSyncShared 3 (snd (subscribeSyncShared 2 (snd (subscribeSyncShared 1
         (snd (subscribeStatus 9 (snd (subscribeStatus 8 (snd (subscribeStatus 7 SledgeClient2)))))))))))))))))"

text \<open>
  The calls of subscribers that a run makes, read from the record of effects: \<open>t\<close> is the
  record before the run, \<open>t'\<close> the record after it, and \<open>cs\<close> the calls of subscribers
  recorded in between, in order.  What the subscribers themselves emit and register in
  between is left out.
\<close>

fun is_call :: "'v effect \<Rightarrow> bool" where
  "is_call (Notified d e) = True"
| "is_call (NotifiedStatus d s) = True"
| "is_call (Emitted ev data rid) = False"
| "is_call (Registered rid p) = False"
| "is_call (Resolved p data) = False"

definition calls_between :: "'v effect list \<Rightarrow> 'v effect list \<Rightarrow> 'v effect list \<Rightarrow> bool" where
  "calls_between t t' cs \<longleftrightarrow>
     take (length t) t' = t \<and> filter is_call (drop (length t) t') = cs"

text \<open>
  A list up to and including its first element that throws (the whole list when none
  does): \<open>takeWhile\<close> of the elements that return, and the element after them.
\<close>

fun upto_thrower :: "('a \<Rightarrow> error option) \<Rightarrow> 'a list \<Rightarrow> 'a list" where
  "upto_thrower thr [] = []"
| "upto_thrower thr (x # xs) = x # (case thr x of None \<Rightarrow> upto_thrower thr xs | Some err \<Rightarrow> [])"

text \<open>The calls by which a subscriber registers a further subscriber for the event of the pass.\<close>

fun registers_synchronize :: "'v call1 \<Rightarrow> bool" where
  "registers_synchronize (CallSubscribeSynchronize notify) = True"
| "registers_synchronize a = False"

fun registers_shared :: "'v call2 \<Rightarrow> bool" where
  "registers_shared (CallSubscribeSyncShared notify) = True"
| "registers_shared a = False"

fun registers_admin :: "'v call2 \<Rightarrow> bool" where
  "registers_admin (CallSubscribeSyncAdmin notify) = True"
| "registers_admin a = False"


text \<open>The indices that the unsubscribe closures called by a single-channel subscriber delete.\<close>

fun unsubscribes1 :: "'v call1 list \<Rightarrow> nat list" where
  "unsubscribes1 [] = []"
| "unsubscribes1 (CallUnsubscribe1 (UnsubscribeSynchronize j) # as) = j # unsubscribes1 as"
| "unsubscribes1 (a # as) = unsubscribes1 as"

text \<open>
  The slots of the array \<open>arr\<close> that a single-channel pass calls from index \<open>i\<close> on, when
  the slots in \<open>removed\<close> have been deleted during the pass so far: it skips holes and
  deleted slots, calls every other slot, adds the slots that the called subscriber deletes,
  and stops after a subscriber that throws.  It is a function of the array as it was at the
  event; that the loop of the listener calls these slots and no others is a theorem below.
\<close>

function invoked1 :: "(cb_id \<Rightarrow> 'v call1 behaviour) \<Rightarrow> cb_id option list \<Rightarrow> nat set \<Rightarrow> nat \<Rightarrow> nat list" where
  "invoked1 beh arr removed i =
     (if i < length arr then
        (case arr ! i of
           None \<Rightarrow> invoked1 beh arr removed (Suc i)
         | Some x \<Rightarrow>
             if i \<in> removed then invoked1 beh arr removed (Suc i)
             else i # (case throws (beh x) of
                         None \<Rightarrow> invoked1 beh arr (removed \<union> set (unsubscribes1 (calls (beh x)))) (Suc i)
                       | Some err \<Rightarrow> []))
      else [])"
  by pat_completeness auto
termination
  by (relation "measure (\<lambda>(beh, arr, removed, i). length arr - i)") auto

declare invoked1.simps [simp del]

section \<open>Facts about the pending table\<close>

lemma sendAndAwait_eq:
  "sendAndAwait rid ev d c =
     (length (promises c),
      c\<lparr>trace := trace c @ [Emitted ev d rid, Registered rid (length (promises c))],
        promises := promises c @ [Pending],
        responseResolvers := (responseResolvers c)(rid \<mapsto> length (promises c))\<rparr>)"
  by (simp add: sendAndAwait_def socket_emit_def new_Promise_def responseResolvers_set_def)

lemma pending_ok_SledgeClient1: "pending_ok SledgeClient1"
  by (simp add: pending_ok_def SledgeClient1_def)

lemma pending_ok_SledgeClient2: "pending_ok SledgeClient2"
  by (simp add: pending_ok_def SledgeClient2_def)

lemma pending_ok_sendAndAwait:
  assumes "pending_ok c"
  shows "pending_ok (snd (sendAndAwait rid ev d c))"
proof -
  from assms have bound: "\<And>t p. responseResolvers c t = Some p \<Longrightarrow> p < length (promises c)"
    and pend: "\<And>t p. responseResolvers c t = Some p \<Longrightarrow> promises c ! p = Pending"
    and inj: "\<And>t t' p. responseResolvers c t = Some p \<Longrightarrow> responseResolvers c t' = Some p \<Longrightarrow> t = t'"
    unfolding pending_ok_def by blast+
  show ?thesis
    unfolding pending_ok_def sendAndAwait_eq
    using bound pend inj by (fastforce simp: nth_append split: if_splits)
qed

lemma setupResolverDispatch_pending:
  assumes "pending_ok c" and "responseResolvers c (returnId data) = Some p"
  shows "setupResolverDispatch data c =
           Returned (c\<lparr>promises := (promises c)[p := Fulfilled data],
                       trace := trace c @ [Resolved p data],
                       responseResolvers := (responseResolvers c)(returnId data := None)\<rparr>)"
  using assms by (simp add: setupResolverDispatch_def resolve_def pending_ok_def)

lemma pending_ok_setupResolverDispatch:
  assumes "pending_ok c" and "setupResolverDispatch data c = Returned c'"
  shows "pending_ok c'"
proof -
  from assms(1) have bound: "\<And>t p. responseResolvers c t = Some p \<Longrightarrow> p < length (promises c)"
    and pend: "\<And>t p. responseResolvers c t = Some p \<Longrightarrow> promises c ! p = Pending"
    and inj: "\<And>t t' p. responseResolvers c t = Some p \<Longrightarrow> responseResolvers c t' = Some p \<Longrightarrow> t = t'"
    unfolding pending_ok_def by blast+
  from assms(2) obtain p where p: "responseResolvers c (returnId data) = Some p"
    by (auto simp: setupResolverDispatch_def split: option.splits)
  with assms have c': "c' = c\<lparr>promises := (promises c)[p := Fulfilled data],
                                trace := trace c @ [Resolved p data],
                                responseResolvers := (responseResolvers c)(returnId data := None)\<rparr>"
    by (simp add: setupResolverDispatch_pending)
  show ?thesis
    unfolding pending_ok_def c'
    using bound pend inj p by (fastforce simp: nth_list_update split: if_splits)
qed

text \<open>
  The scenario of a request and its response: the handle that a send returns is fulfilled
  with the response that carries the send's token.
\<close>

lemma sendAndAwait_then_response:
  assumes "pending_ok c" and "sendAndAwait rid ev d c = (p, c1)" and "returnId data = rid"
  shows "\<exists>c2. setupResolverDispatch data c1 = Returned c2 \<and> promises c1 ! p = Pending \<and>
           promises c2 ! p = Fulfilled data \<and> responseResolvers c2 rid = None"
proof -
  have ok: "pending_ok c1"
    using pending_ok_sendAndAwait [OF assms(1), of rid ev d] assms(2) by simp
  have p: "p = length (promises c)" and c1: "responseResolvers c1 (returnId data) = Some p"
    "promises c1 = promises c @ [Pending]"
    using assms(2,3) by (auto simp: sendAndAwait_eq)
  show ?thesis
    using setupResolverDispatch_pending [OF ok c1(1)] c1(2) assms(3) p by simp
qed

lemma token_example:
  "generateUniqueReturnId2 1700000000000 ''0.8f3a2b1c4d5e6'' = ''e56800c4d5e6''"
  by (simp add: generateUniqueReturnId2_def slice_neg6_def toString16_def toString16_nat.simps
      hex_digit_def)

section \<open>Facts about token rendering\<close>

lemma hex_digit_inj:
  assumes "a < 16" "b < 16" "hex_digit a = hex_digit b"
  shows "a = b"
proof -
  have "distinct ''0123456789abcdef''" by simp
  moreover have "a < length ''0123456789abcdef''" "b < length ''0123456789abcdef''"
    using assms by simp_all
  moreover have "''0123456789abcdef'' ! a = ''0123456789abcdef'' ! b"
    using assms by (simp add: hex_digit_def)
  ultimately show ?thesis by (simp only: nth_eq_iff_index_eq)
qed

lemma hex_digit_not_minus: "hex_digit d \<noteq> CHR ''-''"
proof -
  have "d mod 16 < length ''0123456789abcdef''" by simp
  then have "hex_digit d \<in> set ''0123456789abcdef''"
    unfolding hex_digit_def by (rule nth_mem)
  then show ?thesis by auto
qed

lemma toString16_nat_nonempty: "toString16_nat n \<noteq> []"
  by (subst toString16_nat.simps) simp

lemma minus_notin_toString16_nat: "CHR ''-'' \<notin> set (toString16_nat n)"
proof (induction n rule: toString16_nat.induct)
  case (1 n)
  show ?case
  proof (cases "n < 16")
    case True
    then show ?thesis
      by (subst toString16_nat.simps) (simp add: hex_digit_not_minus [symmetric])
  next
    case False
    with "1.IH" show ?thesis
      by (subst toString16_nat.simps) (simp add: hex_digit_not_minus [symmetric])
  qed
qed

lemma toString16_nat_inj: "toString16_nat n = toString16_nat m \<Longrightarrow> n = m"
proof (induction n arbitrary: m rule: toString16_nat.induct)
  case (1 n)
  show ?case
  proof (cases "n < 16")
    case n: True
    show ?thesis
    proof (cases "m < 16")
      case True
      from "1.prems" n True have "hex_digit n = hex_digit m"
        by (simp add: toString16_nat.simps)
      with n True show ?thesis by (rule hex_digit_inj)
    next
      case False
      from "1.prems" n False have "[hex_digit n] = toString16_nat (m div 16) @ [hex_digit (m mod 16)]"
        by (simp add: toString16_nat.simps [of n] toString16_nat.simps [of m])
      then have "toString16_nat (m div 16) = []" by simp
      then show ?thesis by (simp add: toString16_nat_nonempty)
    qed
  next
    case n: False
    show ?thesis
    proof (cases "m < 16")
      case True
      from "1.prems" n True have "toString16_nat (n div 16) @ [hex_digit (n mod 16)] = [hex_digit m]"
        by (simp add: toString16_nat.simps [of n] toString16_nat.simps [of m])
      then have "toString16_nat (n div 16) = []" by simp
      then show ?thesis by (simp add: toString16_nat_nonempty)
    next
      case False
      from "1.prems" n False have
        "toString16_nat (n div 16) @ [hex_digit (n mod 16)] = toString16_nat (m div 16) @ [hex_digit (m mod 16)]"
        by (simp add: toString16_nat.simps [of n] toString16_nat.simps [of m])
      then have hi: "toString16_nat (n div 16) = toString16_nat (m div 16)"
        and lo: "hex_digit (n mod 16) = hex_digit (m mod 16)" by simp_all
      from "1.IH" [OF n hi] have "n div 16 = m div 16" .
      moreover have "n mod 16 = m mod 16"
        using lo by (intro hex_digit_inj) simp_all
      ultimately show ?thesis by (metis div_mult_mod_eq)
    qed
  qed
qed

lemma toString16_inj: "toString16 a = toString16 b \<longleftrightarrow> a = b"
proof
  assume eq: "toString16 a = toString16 b"
  consider "a < 0" "b < 0" | "a < 0" "0 \<le> b" | "0 \<le> a" "b < 0" | "0 \<le> a" "0 \<le> b"
    by linarith
  then show "a = b"
  proof cases
    case 1
    with eq have "toString16_nat (nat (- a)) = toString16_nat (nat (- b))"
      by (simp add: toString16_def)
    then have "nat (- a) = nat (- b)" by (rule toString16_nat_inj)
    with 1 show ?thesis by simp
  next
    case 2
    with eq have "CHR ''-'' # toString16_nat (nat (- a)) = toString16_nat (nat b)"
      by (simp add: toString16_def)
    then have "CHR ''-'' \<in> set (toString16_nat (nat b))" by (metis list.set_intros(1))
    then show ?thesis by (simp add: minus_notin_toString16_nat)
  next
    case 3
    with eq have "toString16_nat (nat a) = CHR ''-'' # toString16_nat (nat (- b))"
      by (simp add: toString16_def)
    then have "CHR ''-'' \<in> set (toString16_nat (nat a))" by (metis list.set_intros(1))
    then show ?thesis by (simp add: minus_notin_toString16_nat)
  next
    case 4
    with eq have "toString16_nat (nat a) = toString16_nat (nat b)"
      by (simp add: toString16_def)
    then have "nat a = nat b" by (rule toString16_nat_inj)
    with 4 show ?thesis by simp
  qed
qed simp

lemma ToInt32_example: "ToInt32 1700000000000 AND - 256 = - 807049216"
  by (simp add: ToInt32_def)

lemma token_example1:
  "generateUniqueReturnId1 1700000000000 (1/2) = ''-301a9780''"
  "generateUniqueReturnId1 1700000000000 (257/512) = ''-301a9780''"
  by (simp_all add: generateUniqueReturnId1_def ToInt32_example toString16_def
      toString16_nat.simps hex_digit_def)

section \<open>Facts about the examples\<close>

lemma three_subscribers1_eq:
  "three_subscribers1 = \<lparr>responseResolvers = Map.empty, promises = [], trace = [],
     synchronizeSubscribers = [Some 1, Some 2, Some 3]\<rparr>"
  by (simp add: three_subscribers1_def subscribeSynchronize_def SledgeClient1_def)

lemma three_subscribers2_eq:
  "three_subscribers2 = \<lparr>responseResolvers = Map.empty, promises = [], trace = [],
     status = Connecting, syncSharedSubs = [1, 2, 3], syncAdminSubs = [4, 5, 6],
     statusSubscribers = [7, 8, 9]\<rparr>"
  by (simp add: three_subscribers2_def subscribeSyncAdmin_def subscribeSyncShared_def
      subscribeStatus_def SledgeClient2_def)

section \<open>Facts about the loop\<close>

lemma calls_betweenI: "t' = t @ u \<Longrightarrow> filter is_call u = cs \<Longrightarrow> calls_between t t' cs"
  by (simp add: calls_between_def)

lemma calls_between_refl: "calls_between t t []"
  by (simp add: calls_between_def)

lemma calls_between_trans:
  assumes "calls_between t t' cs" and "calls_between t' t'' ds"
  shows "calls_between t t'' (cs @ ds)"
proof -
  from assms(1) obtain u where u: "t' = t @ u" "filter is_call u = cs"
    unfolding calls_between_def by (metis append_take_drop_id)
  from assms(2) obtain v where v: "t'' = t' @ v" "filter is_call v = ds"
    unfolding calls_between_def by (metis append_take_drop_id)
  show ?thesis
    using u v by (intro calls_betweenI [where u = "u @ v"]) simp_all
qed

lemma for_of_end: "length (arr s) \<le> i \<Longrightarrow> for_of arr call i s = Some (Returned s)"
  by (subst for_of.simps) simp

lemma for_of_hole:
  "i < length (arr s) \<Longrightarrow> arr s ! i = None \<Longrightarrow> for_of arr call i s = for_of arr call (Suc i) s"
  by (subst for_of.simps) simp

lemma for_of_returned:
  "i < length (arr s) \<Longrightarrow> arr s ! i = Some x \<Longrightarrow> call x s = Returned s' \<Longrightarrow>
   for_of arr call i s = for_of arr call (Suc i) s'"
  by (subst for_of.simps) simp

lemma for_of_threw:
  "i < length (arr s) \<Longrightarrow> arr s ! i = Some x \<Longrightarrow> call x s = Threw err s' \<Longrightarrow>
   for_of arr call i s = Some (Threw err s')"
  by (subst for_of.simps) simp



lemma upto_thrower_nonempty: "xs \<noteq> [] \<Longrightarrow> upto_thrower thr xs \<noteq> []"
  by (cases xs) simp_all

lemma upto_thrower_none: "\<forall>x \<in> set xs. thr x = None \<Longrightarrow> upto_thrower thr xs = xs"
  by (induction xs) simp_all

lemma for_of_stable:
  fixes arr :: "'s \<Rightarrow> 'a option list" and tr :: "'s \<Rightarrow> 'v effect list" and mk :: "'a \<Rightarrow> 'v effect"
  assumes spec: "\<And>x s. I s \<Longrightarrow>
      \<exists>s'. call x s = (case thr x of None \<Rightarrow> Returned s' | Some err \<Rightarrow> Threw err s') \<and> I s' \<and>
           calls_between (tr s) (tr s') [mk x] \<and>
           take (length (arr s)) (arr s') = arr s \<and>
           (nosub x \<longrightarrow> length (arr s') = length (arr s))"
    and "I s" and "take (length xs) (arr s) = map Some xs" and "i \<le> length xs"
  shows "if \<exists>x \<in> set (drop i xs). thr x \<noteq> None
         then \<exists>s'. for_of arr call i s =
                    Some (Threw (the (thr (last (upto_thrower thr (drop i xs))))) s') \<and>
                  I s' \<and>
                  calls_between (tr s) (tr s') (map mk (upto_thrower thr (drop i xs)))
         else \<exists>s'. for_of arr call i s = for_of arr call (length xs) s' \<and> I s' \<and>
                  calls_between (tr s) (tr s') (map mk (drop i xs)) \<and>
                  take (length xs) (arr s') = map Some xs \<and>
                  ((\<forall>x \<in> set (drop i xs). nosub x) \<longrightarrow> length (arr s') = length (arr s))"
  using assms(2-)
proof (induction "length xs - i" arbitrary: i s)
  case 0
  then have "drop i xs = []" "i = length xs" by simp_all
  with "0.prems" show ?case
    by (auto simp: calls_between_refl)
next
  case (Suc m)
  let ?n = "length xs"
  from Suc.hyps(2) have i: "i < ?n" by simp
  define x where "x = xs ! i"
  have len: "?n \<le> length (arr s)"
    using Suc.prems(2) by (metis length_map length_take min.absorb_iff2 min.cobounded1)
  have slot: "arr s ! i = Some x"
    using Suc.prems(2) i by (metis x_def nth_map nth_take)
  have il: "i < length (arr s)" using i len by simp
  have dr: "drop i xs = x # drop (Suc i) xs"
    using i by (simp add: x_def Cons_nth_drop_Suc)
  from spec [OF Suc.prems(1), of x] obtain s1 where
    c: "call x s = (case thr x of None \<Rightarrow> Returned s1 | Some err \<Rightarrow> Threw err s1)"
    and I1: "I s1" and cb: "calls_between (tr s) (tr s1) [mk x]"
    and pre: "take (length (arr s)) (arr s1) = arr s"
    and ns: "nosub x \<longrightarrow> length (arr s1) = length (arr s)"
    by blast
  show ?case
  proof (cases "thr x")
    case (Some err)
    with c have "call x s = Threw err s1" by simp
    with il slot have "for_of arr call i s = Some (Threw err s1)"
      by (rule for_of_threw)
    with Some I1 cb show ?thesis
      by (auto simp: dr)
  next
    case None
    with c have "call x s = Returned s1" by simp
    with il slot have run: "for_of arr call i s = for_of arr call (Suc i) s1"
      by (rule for_of_returned)
    have "take ?n (arr s1) = take ?n (take (length (arr s)) (arr s1))"
      using len by (simp add: min_def)
    then have pre1: "take ?n (arr s1) = map Some xs"
      using pre Suc.prems(2) by simp
    have m: "m = ?n - Suc i" using Suc.hyps(2) by simp
    have Si: "Suc i \<le> ?n" using i by simp
    note IH = Suc.hyps(1) [OF m I1 pre1 Si]
    show ?thesis
    proof (cases "\<exists>y \<in> set (drop (Suc i) xs). thr y \<noteq> None")
      case True
      with IH obtain s' where
        r: "for_of arr call (Suc i) s1 =
              Some (Threw (the (thr (last (upto_thrower thr (drop (Suc i) xs))))) s')"
        and I': "I s'"
        and cb': "calls_between (tr s1) (tr s') (map mk (upto_thrower thr (drop (Suc i) xs)))"
        by auto
      from True have "drop (Suc i) xs \<noteq> []" by auto
      then have ne: "upto_thrower thr (drop (Suc i) xs) \<noteq> []" by (rule upto_thrower_nonempty)
      have up: "upto_thrower thr (drop i xs) = x # upto_thrower thr (drop (Suc i) xs)"
        using None by (simp add: dr)
      have cbt: "calls_between (tr s) (tr s') (map mk (upto_thrower thr (drop i xs)))"
        using calls_between_trans [OF cb cb'] by (simp add: up)
      have ex: "\<exists>y \<in> set (drop i xs). thr y \<noteq> None" using True by (simp add: dr)
      show ?thesis
        using ex run r I' cbt ne by (auto simp: up)
    next
      case False
      with IH obtain s' where
        r: "for_of arr call (Suc i) s1 = for_of arr call ?n s'" and I': "I s'"
        and cb': "calls_between (tr s1) (tr s') (map mk (drop (Suc i) xs))"
        and pre': "take ?n (arr s') = map Some xs"
        and ns': "(\<forall>y \<in> set (drop (Suc i) xs). nosub y) \<longrightarrow> length (arr s') = length (arr s1)"
        by auto
      have nex: "\<not> (\<exists>y \<in> set (drop i xs). thr y \<noteq> None)"
        using False None by (simp add: dr)
      have cbt: "calls_between (tr s) (tr s') (map mk (drop i xs))"
        using calls_between_trans [OF cb cb'] by (simp add: dr)
      have nst: "(\<forall>y \<in> set (drop i xs). nosub y) \<longrightarrow> length (arr s') = length (arr s)"
        using ns ns' by (simp add: dr)
      show ?thesis
        using nex run r I' cbt pre' nst by auto
    qed
  qed
qed

lemma upto_thrower_eq:
  "upto_thrower thr xs =
     takeWhile (\<lambda>x. thr x = None) xs @ take 1 (dropWhile (\<lambda>x. thr x = None) xs)"
  by (induction xs) (auto split: option.splits)

section \<open>Facts about the passes of the two-channel revision\<close>

lemma trace_send2:
  "trace (snd (send2 m now rnd16 data c)) =
     trace c @ [Emitted (eventName2 m) data (generateUniqueReturnId2 now rnd16),
                Registered (generateUniqueReturnId2 now rnd16) (length (promises c))]"
  by (simp add: send2_def sendAndAwait2_def sendAndAwait_eq Let_def)

lemma send2_frame:
  "status (snd (send2 m now rnd16 data c)) = status c"
  "syncSharedSubs (snd (send2 m now rnd16 data c)) = syncSharedSubs c"
  "syncAdminSubs (snd (send2 m now rnd16 data c)) = syncAdminSubs c"
  "statusSubscribers (snd (send2 m now rnd16 data c)) = statusSubscribers c"
  by (simp_all add: send2_def sendAndAwait2_def sendAndAwait_eq Let_def)

lemma run_call2_facts:
  "status (run_call2 a c) = status c"
  "calls_between (trace c) (trace (run_call2 a c)) []"
  "take (length (syncSharedSubs c)) (syncSharedSubs (run_call2 a c)) = syncSharedSubs c"
  "take (length (syncAdminSubs c)) (syncAdminSubs (run_call2 a c)) = syncAdminSubs c"
  "\<not> registers_shared a \<Longrightarrow> syncSharedSubs (run_call2 a c) = syncSharedSubs c"
  "\<not> registers_admin a \<Longrightarrow> syncAdminSubs (run_call2 a c) = syncAdminSubs c"
proof -
  show "status (run_call2 a c) = status c"
  proof (cases a)
    case (CallUnsubscribe2 u)
    then show ?thesis by (cases u) simp
  qed (simp_all add: subscribeStatus_def subscribeSyncAdmin_def subscribeSyncShared_def send2_frame)
  show "calls_between (trace c) (trace (run_call2 a c)) []"
  proof (cases a)
    case (CallUnsubscribe2 u)
    then show ?thesis by (cases u) (simp add: calls_between_def)
  qed (simp_all add: subscribeStatus_def subscribeSyncAdmin_def subscribeSyncShared_def
        trace_send2 calls_between_def)
  show "take (length (syncSharedSubs c)) (syncSharedSubs (run_call2 a c)) = syncSharedSubs c"
  proof (cases a)
    case (CallUnsubscribe2 u)
    then show ?thesis by (cases u) simp
  qed (simp_all add: subscribeStatus_def subscribeSyncAdmin_def subscribeSyncShared_def send2_frame)
  show "take (length (syncAdminSubs c)) (syncAdminSubs (run_call2 a c)) = syncAdminSubs c"
  proof (cases a)
    case (CallUnsubscribe2 u)
    then show ?thesis by (cases u) simp
  qed (simp_all add: subscribeStatus_def subscribeSyncAdmin_def subscribeSyncShared_def send2_frame)
  show "\<not> registers_shared a \<Longrightarrow> syncSharedSubs (run_call2 a c) = syncSharedSubs c"
  proof (cases a)
    case (CallUnsubscribe2 u)
    then show ?thesis by (cases u) simp
  qed (simp_all add: subscribeStatus_def subscribeSyncAdmin_def subscribeSyncShared_def send2_frame)
  show "\<not> registers_admin a \<Longrightarrow> syncAdminSubs (run_call2 a c) = syncAdminSubs c"
  proof (cases a)
    case (CallUnsubscribe2 u)
    then show ?thesis by (cases u) simp
  qed (simp_all add: subscribeStatus_def subscribeSyncAdmin_def subscribeSyncShared_def send2_frame)
qed

lemma take_take_prefix:
  assumes "take (length xs) ys = xs" and "take (length ys) zs = ys"
  shows "take (length xs) zs = xs"
proof -
  have "length (take (length xs) ys) = length xs"
    using assms(1) by simp
  then have "length xs \<le> length ys"
    by simp
  then have "take (length xs) zs = take (length xs) (take (length ys) zs)"
    by (simp add: min_def)
  with assms show ?thesis by simp
qed

lemma fold_run_call2_facts:
  "status (fold run_call2 as c) = status c"
  "calls_between (trace c) (trace (fold run_call2 as c)) []"
  "take (length (syncSharedSubs c)) (syncSharedSubs (fold run_call2 as c)) = syncSharedSubs c"
  "take (length (syncAdminSubs c)) (syncAdminSubs (fold run_call2 as c)) = syncAdminSubs c"
  "\<forall>a \<in> set as. \<not> registers_shared a \<Longrightarrow> syncSharedSubs (fold run_call2 as c) = syncSharedSubs c"
  "\<forall>a \<in> set as. \<not> registers_admin a \<Longrightarrow> syncAdminSubs (fold run_call2 as c) = syncAdminSubs c"
proof (induction as arbitrary: c)
  case Nil
  {
    case 1 show ?case by simp
  next
    case 2 show ?case by (simp add: calls_between_refl)
  next
    case 3 show ?case by simp
  next
    case 4 show ?case by simp
  next
    case 5 show ?case by simp
  next
    case 6 show ?case by simp
  }
next
  case (Cons a as)
  {
    case 1 show ?case by (simp add: Cons.IH(1) run_call2_facts(1))
  next
    case 2
    show ?case
      using calls_between_trans [OF run_call2_facts(2) Cons.IH(2), of c a] by simp
  next
    case 3
    show ?case
      using take_take_prefix [OF run_call2_facts(3) Cons.IH(3), of c a] by simp
  next
    case 4
    show ?case
      using take_take_prefix [OF run_call2_facts(4) Cons.IH(4), of c a] by simp
  next
    case 5
    then show ?case by (simp add: Cons.IH(5) run_call2_facts(5))
  next
    case 6
    then show ?case by (simp add: Cons.IH(6) run_call2_facts(6))
  }
qed

lemma call_subscriber2_eq:
  "call_subscriber2 beh e x c =
     (case throws (beh x) of
        None \<Rightarrow> Returned (fold run_call2 (calls (beh x)) (c\<lparr>trace := trace c @ [Notified x e]\<rparr>))
      | Some err \<Rightarrow> Threw err (fold run_call2 (calls (beh x)) (c\<lparr>trace := trace c @ [Notified x e]\<rparr>)))"
  by (simp add: call_subscriber2_def Let_def split: option.splits)

lemma call_subscriber2_calls:
  "calls_between (trace c)
     (trace (fold run_call2 (calls (beh x)) (c\<lparr>trace := trace c @ [Notified x e]\<rparr>)))
     [Notified x e]"
proof -
  let ?c1 = "c\<lparr>trace := trace c @ [Notified x e]\<rparr>"
  have "calls_between (trace c) (trace ?c1) [Notified x e]"
    by (simp add: calls_between_def)
  from calls_between_trans [OF this fold_run_call2_facts(2) [of ?c1 "calls (beh x)"]]
  show ?thesis by simp
qed

lemma SynchronizeShared_pass:
  fixes c :: "'v client2"
  defines "subs \<equiv> syncSharedSubs c"
  shows "if \<exists>x \<in> set subs. throws (beh x) \<noteq> None
         then \<exists>c'. on_SynchronizeShared beh e c =
                    Some (Threw (the (throws (beh (last (upto_thrower (\<lambda>x. throws (beh x)) subs))))) c') \<and>
                  calls_between (trace c) (trace c')
                    (map (\<lambda>x. Notified x e) (upto_thrower (\<lambda>x. throws (beh x)) subs))
         else \<exists>c'. on_SynchronizeShared beh e c = SynchronizeShared_loop beh e (length subs) c' \<and>
                  calls_between (trace c) (trace c') (map (\<lambda>x. Notified x e) subs) \<and>
                  take (length subs) (syncSharedSubs c') = subs \<and>
                  ((\<forall>x \<in> set subs. \<forall>a \<in> set (calls (beh x)). \<not> registers_shared a) \<longrightarrow>
                     on_SynchronizeShared beh e c = Some (Returned c'))"
proof -
  let ?arr = "\<lambda>c :: 'v client2. map Some (syncSharedSubs c)"
  let ?nosub = "\<lambda>x. \<forall>a \<in> set (calls (beh x)). \<not> registers_shared a"
  have spec: "\<exists>s'. call_subscriber2 beh e x s =
                 (case throws (beh x) of None \<Rightarrow> Returned s' | Some err \<Rightarrow> Threw err s') \<and> True \<and>
               calls_between (trace s) (trace s') [Notified x e] \<and>
               take (length (?arr s)) (?arr s') = ?arr s \<and>
               (?nosub x \<longrightarrow> length (?arr s') = length (?arr s))" for x and s :: "'v client2"
  proof -
    let ?s1 = "s\<lparr>trace := trace s @ [Notified x e]\<rparr>"
    let ?s' = "fold run_call2 (calls (beh x)) ?s1"
    have "take (length (syncSharedSubs s)) (syncSharedSubs ?s') = syncSharedSubs s"
      using fold_run_call2_facts(3) [of ?s1 "calls (beh x)"] by simp
    then have pre: "take (length (?arr s)) (?arr ?s') = ?arr s"
      by (simp add: take_map)
    have len: "?nosub x \<longrightarrow> length (?arr ?s') = length (?arr s)"
      using fold_run_call2_facts(5) [of "calls (beh x)" ?s1] by simp
    show ?thesis
      using call_subscriber2_eq [of beh e x s] call_subscriber2_calls [of s beh x e] pre len
      by (intro exI [of _ ?s']) simp
  qed
  have start: "take (length subs) (?arr c) = map Some subs"
    by (simp add: subs_def)
  note T = for_of_stable [where arr = ?arr and call = "call_subscriber2 beh e" and I = "\<lambda>_. True"
      and thr = "\<lambda>x. throws (beh x)" and tr = trace and mk = "\<lambda>x. Notified x e"
      and nosub = ?nosub and s = c and xs = subs and i = 0, OF spec _ start]
  show ?thesis
  proof (cases "\<exists>x \<in> set subs. throws (beh x) \<noteq> None")
    case True
    with T show ?thesis
      by (simp add: on_SynchronizeShared_def SynchronizeShared_loop_def)
  next
    case False
    with T obtain c' where
      r: "for_of ?arr (call_subscriber2 beh e) 0 c = for_of ?arr (call_subscriber2 beh e) (length subs) c'"
      and cb: "calls_between (trace c) (trace c') (map (\<lambda>x. Notified x e) subs)"
      and pre: "take (length subs) (?arr c') = map Some subs"
      and len: "(\<forall>x \<in> set subs. ?nosub x) \<longrightarrow> length (?arr c') = length (?arr c)"
      by auto
    have pre': "take (length subs) (syncSharedSubs c') = subs"
    proof -
      have "map Some (take (length subs) (syncSharedSubs c')) = map Some subs"
        using pre by (simp add: take_map)
      then show ?thesis by (simp add: inj_map_eq_map)
    qed
    have fin: "(\<forall>x \<in> set subs. ?nosub x) \<longrightarrow> on_SynchronizeShared beh e c = Some (Returned c')"
    proof
      assume "\<forall>x \<in> set subs. ?nosub x"
      with len have "length (?arr c') \<le> length subs" by (simp add: subs_def)
      then have "for_of ?arr (call_subscriber2 beh e) (length subs) c' = Some (Returned c')"
        by (rule for_of_end)
      with r show "on_SynchronizeShared beh e c = Some (Returned c')"
        by (simp add: on_SynchronizeShared_def SynchronizeShared_loop_def)
    qed
    show ?thesis
      using False r cb pre' fin
      by (auto simp: on_SynchronizeShared_def SynchronizeShared_loop_def)
  qed
qed




section \<open>Facts about the pass of the single-channel revision\<close>

lemma trace_send1:
  "trace (snd (send1 m now rnd data c)) =
     trace c @ [Emitted (eventName1 m) data (generateUniqueReturnId1 now rnd),
                Registered (generateUniqueReturnId1 now rnd) (length (promises c))]"
  by (simp add: send1_def sendAndAwait1_def sendAndAwait_eq Let_def)

lemma send1_frame:
  "synchronizeSubscribers (snd (send1 m now rnd data c)) = synchronizeSubscribers c"
  by (simp add: send1_def sendAndAwait1_def sendAndAwait_eq Let_def)

lemma run_call1_facts:
  "calls_between (trace c) (trace (run_call1 a c)) []"
  "length (synchronizeSubscribers c) \<le> length (synchronizeSubscribers (run_call1 a c))"
  "k < length (synchronizeSubscribers c) \<Longrightarrow>
     synchronizeSubscribers (run_call1 a c) ! k =
       (if k \<in> set (unsubscribes1 [a]) then None else synchronizeSubscribers c ! k)"
  "\<not> registers_synchronize a \<Longrightarrow>
     length (synchronizeSubscribers (run_call1 a c)) = length (synchronizeSubscribers c)"
proof -
  show "calls_between (trace c) (trace (run_call1 a c)) []"
  proof (cases a)
    case (CallUnsubscribe1 u)
    then show ?thesis by (cases u) (simp add: calls_between_def)
  qed (simp_all add: subscribeSynchronize_def trace_send1 calls_between_def)
  show "length (synchronizeSubscribers c) \<le> length (synchronizeSubscribers (run_call1 a c))"
  proof (cases a)
    case (CallUnsubscribe1 u)
    then show ?thesis by (cases u) simp
  qed (simp_all add: subscribeSynchronize_def send1_frame)
  show "k < length (synchronizeSubscribers c) \<Longrightarrow>
     synchronizeSubscribers (run_call1 a c) ! k =
       (if k \<in> set (unsubscribes1 [a]) then None else synchronizeSubscribers c ! k)"
  proof (cases a)
    case (CallUnsubscribe1 u)
    assume "k < length (synchronizeSubscribers c)"
    with CallUnsubscribe1 show ?thesis by (cases u) (auto simp: nth_list_update)
  qed (simp_all add: subscribeSynchronize_def send1_frame nth_append)
  show "\<not> registers_synchronize a \<Longrightarrow>
     length (synchronizeSubscribers (run_call1 a c)) = length (synchronizeSubscribers c)"
  proof (cases a)
    case (CallUnsubscribe1 u)
    then show ?thesis by (cases u) simp
  qed (simp_all add: send1_frame)
qed

lemma set_unsubscribes1_Cons:
  "set (unsubscribes1 (a # as)) = set (unsubscribes1 [a]) \<union> set (unsubscribes1 as)"
  by (cases "a # as" rule: unsubscribes1.cases) auto

lemma fold_run_call1_facts:
  "calls_between (trace c) (trace (fold run_call1 as c)) []"
  "length (synchronizeSubscribers c) \<le> length (synchronizeSubscribers (fold run_call1 as c))"
  "k < length (synchronizeSubscribers c) \<Longrightarrow>
     synchronizeSubscribers (fold run_call1 as c) ! k =
       (if k \<in> set (unsubscribes1 as) then None else synchronizeSubscribers c ! k)"
  "\<forall>a \<in> set as. \<not> registers_synchronize a \<Longrightarrow>
     length (synchronizeSubscribers (fold run_call1 as c)) = length (synchronizeSubscribers c)"
proof (induction as arbitrary: c)
  case Nil
  {
    case 1 show ?case by (simp add: calls_between_refl)
  next
    case 2 show ?case by simp
  next
    case 3 show ?case by simp
  next
    case 4 show ?case by simp
  }
next
  case (Cons a as)
  {
    case 1
    show ?case
      using calls_between_trans [OF run_call1_facts(1) Cons.IH(1), of c a] by simp
  next
    case 2
    show ?case
      using run_call1_facts(2) [of c a] Cons.IH(2) [of "run_call1 a c"] by simp
  next
    case 3
    then have k': "k < length (synchronizeSubscribers (run_call1 a c))"
      using run_call1_facts(2) [of c a] by simp
    show ?case
      using Cons.IH(3) [OF k'] run_call1_facts(3) [OF 3, of a]
      by (simp add: set_unsubscribes1_Cons [of a as])
  next
    case 4
    then show ?case by (simp add: Cons.IH(4) run_call1_facts(4))
  }
qed

lemma call_subscriber1_eq:
  "call_subscriber1 beh e x c =
     (case throws (beh x) of
        None \<Rightarrow> Returned (fold run_call1 (calls (beh x)) (c\<lparr>trace := trace c @ [Notified x e]\<rparr>))
      | Some err \<Rightarrow> Threw err (fold run_call1 (calls (beh x)) (c\<lparr>trace := trace c @ [Notified x e]\<rparr>)))"
  by (simp add: call_subscriber1_def Let_def split: option.splits)

lemma call_subscriber1_calls:
  "calls_between (trace c)
     (trace (fold run_call1 (calls (beh x)) (c\<lparr>trace := trace c @ [Notified x e]\<rparr>)))
     [Notified x e]"
proof -
  let ?c1 = "c\<lparr>trace := trace c @ [Notified x e]\<rparr>"
  have "calls_between (trace c) (trace ?c1) [Notified x e]"
    by (simp add: calls_between_def)
  from calls_between_trans [OF this fold_run_call1_facts(1) [of ?c1 "calls (beh x)"]]
  show ?thesis by simp
qed

lemma Synchronize_pass_from:
  fixes c :: "'v client1"
  assumes "i \<le> length arr0" and "length arr0 \<le> length (synchronizeSubscribers c)"
    and "\<forall>k < length arr0. synchronizeSubscribers c ! k = (if k \<in> removed then None else arr0 ! k)"
  shows "if invoked1 beh arr0 removed i \<noteq> [] \<and>
            throws (beh (the (arr0 ! last (invoked1 beh arr0 removed i)))) \<noteq> None
         then \<exists>c'. Synchronize_loop beh e i c =
                    Some (Threw (the (throws (beh (the (arr0 ! last (invoked1 beh arr0 removed i)))))) c') \<and>
                  calls_between (trace c) (trace c')
                    (map (\<lambda>k. Notified (the (arr0 ! k)) e) (invoked1 beh arr0 removed i))
         else \<exists>c'. Synchronize_loop beh e i c = Synchronize_loop beh e (length arr0) c' \<and>
                  calls_between (trace c) (trace c')
                    (map (\<lambda>k. Notified (the (arr0 ! k)) e) (invoked1 beh arr0 removed i)) \<and>
                  length arr0 \<le> length (synchronizeSubscribers c') \<and>
                  ((\<forall>k \<in> set (invoked1 beh arr0 removed i).
                      \<forall>a \<in> set (calls (beh (the (arr0 ! k)))). \<not> registers_synchronize a) \<longrightarrow>
                   length (synchronizeSubscribers c') = length (synchronizeSubscribers c))"
  using assms
proof (induction "length arr0 - i" arbitrary: i c removed)
  case 0
  then have "i = length arr0" by simp
  then have "invoked1 beh arr0 removed i = []"
    by (subst invoked1.simps) simp
  with \<open>i = length arr0\<close> "0.prems"(2) show ?case
    by (auto simp: calls_between_refl)
next
  case (Suc m)
  let ?n = "length arr0"
  let ?N = "\<lambda>k. Notified (the (arr0 ! k)) e"
  let ?loop = "Synchronize_loop beh e"
  from Suc.hyps(2) have i: "i < ?n" and m: "m = ?n - Suc i" and Si: "Suc i \<le> ?n" by simp_all
  have il: "i < length (synchronizeSubscribers c)" using i Suc.prems(2) by simp
  have cur: "synchronizeSubscribers c ! i = (if i \<in> removed then None else arr0 ! i)"
    using Suc.prems(3) i by simp
  show ?case
  proof (cases "i \<in> removed \<or> arr0 ! i = None")
    case True
    then have hole: "synchronizeSubscribers c ! i = None" using cur by auto
    have plan: "invoked1 beh arr0 removed i = invoked1 beh arr0 removed (Suc i)"
      using True i by (subst invoked1.simps) (auto split: option.splits)
    have run: "?loop i c = ?loop (Suc i) c"
      unfolding Synchronize_loop_def using il hole by (rule for_of_hole)
    from Suc.hyps(1) [OF m Si Suc.prems(2,3)] show ?thesis
      unfolding plan run .
  next
    case False
    then obtain x where x: "arr0 ! i = Some x" and nr: "i \<notin> removed" by auto
    then have slot: "synchronizeSubscribers c ! i = Some x" using cur by simp
    let ?c1 = "fold run_call1 (calls (beh x)) (c\<lparr>trace := trace c @ [Notified x e]\<rparr>)"
    have cb1: "calls_between (trace c) (trace ?c1) [Notified x e]"
      by (rule call_subscriber1_calls)
    show ?thesis
    proof (cases "throws (beh x)")
      case (Some err)
      have plan: "invoked1 beh arr0 removed i = [i]"
        using x nr i Some by (subst invoked1.simps) simp
      have "call_subscriber1 beh e x c = Threw err ?c1"
        using Some by (simp add: call_subscriber1_eq)
      with il slot have "?loop i c = Some (Threw err ?c1)"
        unfolding Synchronize_loop_def by (rule for_of_threw)
      with cb1 Some x show ?thesis
        by (auto simp: plan)
    next
      case None
      let ?removed' = "removed \<union> set (unsubscribes1 (calls (beh x)))"
      let ?P' = "invoked1 beh arr0 ?removed' (Suc i)"
      have plan: "invoked1 beh arr0 removed i = i # ?P'"
        using x nr i None by (subst invoked1.simps) simp
      have "call_subscriber1 beh e x c = Returned ?c1"
        using None by (simp add: call_subscriber1_eq)
      with il slot have run: "?loop i c = ?loop (Suc i) ?c1"
        unfolding Synchronize_loop_def by (rule for_of_returned)
      have len1: "?n \<le> length (synchronizeSubscribers ?c1)"
        using fold_run_call1_facts(2) [of "c\<lparr>trace := trace c @ [Notified x e]\<rparr>" "calls (beh x)"]
          Suc.prems(2) by simp
      have inv1: "\<forall>k < ?n. synchronizeSubscribers ?c1 ! k = (if k \<in> ?removed' then None else arr0 ! k)"
      proof (intro allI impI)
        fix k assume k: "k < ?n"
        then have "k < length (synchronizeSubscribers (c\<lparr>trace := trace c @ [Notified x e]\<rparr>))"
          using Suc.prems(2) by simp
        from fold_run_call1_facts(3) [OF this, of "calls (beh x)"] Suc.prems(3) k
        show "synchronizeSubscribers ?c1 ! k = (if k \<in> ?removed' then None else arr0 ! k)"
          by simp
      qed
      have nosub1: "(\<forall>a \<in> set (calls (beh x)). \<not> registers_synchronize a) \<longrightarrow>
          length (synchronizeSubscribers ?c1) = length (synchronizeSubscribers c)"
        using fold_run_call1_facts(4) [of "calls (beh x)" "c\<lparr>trace := trace c @ [Notified x e]\<rparr>"]
        by simp
      note IH = Suc.hyps(1) [OF m Si len1 inv1]
      have thex: "the (arr0 ! i) = x" using x by simp
      show ?thesis
      proof (cases "?P' \<noteq> [] \<and> throws (beh (the (arr0 ! last ?P'))) \<noteq> None")
        case True
        from IH [unfolded if_P [OF True]] obtain c' where
          r: "?loop (Suc i) ?c1 = Some (Threw (the (throws (beh (the (arr0 ! last ?P'))))) c')"
          and cb': "calls_between (trace ?c1) (trace c') (map ?N ?P')"
          by blast
        have cbt: "calls_between (trace c) (trace c') (map ?N (i # ?P'))"
          using calls_between_trans [OF cb1 cb'] by (simp add: thex)
        have lastP: "last (i # ?P') = last ?P'" using True by simp
        have cond: "i # ?P' \<noteq> [] \<and> throws (beh (the (arr0 ! last (i # ?P')))) \<noteq> None"
          using True by (simp only: lastP) simp
        have "\<exists>c'. ?loop i c = Some (Threw (the (throws (beh (the (arr0 ! last (i # ?P')))))) c') \<and>
                  calls_between (trace c) (trace c') (map ?N (i # ?P'))"
          using run r cbt unfolding lastP by (intro exI [of _ c']) simp
        then show ?thesis
          unfolding plan if_P [OF cond] .
      next
        case False
        from IH [unfolded if_not_P [OF False]] obtain c' where
          r: "?loop (Suc i) ?c1 = ?loop ?n c'"
          and cb': "calls_between (trace ?c1) (trace c') (map ?N ?P')"
          and len': "?n \<le> length (synchronizeSubscribers c')"
          and ns': "(\<forall>k \<in> set ?P'. \<forall>a \<in> set (calls (beh (the (arr0 ! k)))). \<not> registers_synchronize a) \<longrightarrow>
                   length (synchronizeSubscribers c') = length (synchronizeSubscribers ?c1)"
          by blast
        have cbt: "calls_between (trace c) (trace c') (map ?N (i # ?P'))"
          using calls_between_trans [OF cb1 cb'] by (simp add: thex)
        have ncond: "\<not> (i # ?P' \<noteq> [] \<and> throws (beh (the (arr0 ! last (i # ?P')))) \<noteq> None)"
        proof (cases "?P' = []")
          case True
          then show ?thesis using None thex by simp
        next
          case ne: False
          then have "last (i # ?P') = last ?P'" by simp
          with False ne show ?thesis by simp
        qed
        have nst: "(\<forall>k \<in> set (i # ?P'). \<forall>a \<in> set (calls (beh (the (arr0 ! k)))). \<not> registers_synchronize a) \<longrightarrow>
                   length (synchronizeSubscribers c') = length (synchronizeSubscribers c)"
          using ns' nosub1 by (simp add: thex)
        have "\<exists>c'. ?loop i c = ?loop ?n c' \<and>
                  calls_between (trace c) (trace c') (map ?N (i # ?P')) \<and>
                  ?n \<le> length (synchronizeSubscribers c') \<and>
                  ((\<forall>k \<in> set (i # ?P'). \<forall>a \<in> set (calls (beh (the (arr0 ! k)))). \<not> registers_synchronize a) \<longrightarrow>
                   length (synchronizeSubscribers c') = length (synchronizeSubscribers c))"
          using run r cbt len' nst by (intro exI [of _ c']) simp
        then show ?thesis
          unfolding plan if_not_P [OF ncond] .
      qed
    qed
  qed
qed

lemma invoked1_step:
  "i < length arr \<Longrightarrow> arr ! i = None \<Longrightarrow>
     invoked1 beh arr removed i = invoked1 beh arr removed (Suc i)"
  "i < length arr \<Longrightarrow> i \<in> removed \<Longrightarrow>
     invoked1 beh arr removed i = invoked1 beh arr removed (Suc i)"
  "i < length arr \<Longrightarrow> arr ! i = Some x \<Longrightarrow> i \<notin> removed \<Longrightarrow> throws (beh x) = Some err \<Longrightarrow>
     invoked1 beh arr removed i = [i]"
  "i < length arr \<Longrightarrow> arr ! i = Some x \<Longrightarrow> i \<notin> removed \<Longrightarrow> throws (beh x) = None \<Longrightarrow>
     invoked1 beh arr removed i =
       i # invoked1 beh arr (removed \<union> set (unsubscribes1 (calls (beh x)))) (Suc i)"
  "length arr \<le> i \<Longrightarrow> invoked1 beh arr removed i = []"
  by (subst invoked1.simps, simp split: option.splits)+

lemma invoked1_cases:
  assumes "i < length arr"
  obtains (skip) "arr ! i = None \<or> i \<in> removed"
      "invoked1 beh arr removed i = invoked1 beh arr removed (Suc i)"
    | (thrower) x err where "arr ! i = Some x" "i \<notin> removed" "throws (beh x) = Some err"
      "invoked1 beh arr removed i = [i]"
    | (returns) x where "arr ! i = Some x" "i \<notin> removed" "throws (beh x) = None"
      "invoked1 beh arr removed i =
         i # invoked1 beh arr (removed \<union> set (unsubscribes1 (calls (beh x)))) (Suc i)"
proof (cases "arr ! i = None \<or> i \<in> removed")
  case True
  with assms have "invoked1 beh arr removed i = invoked1 beh arr removed (Suc i)"
    by (auto simp: invoked1_step(1,2))
  with True show ?thesis by (rule skip)
next
  case False
  then obtain x where x: "arr ! i = Some x" "i \<notin> removed" by auto
  show ?thesis
  proof (cases "throws (beh x)")
    case None
    with assms x show ?thesis by (intro returns [of x]) (simp_all add: invoked1_step(4))
  next
    case (Some err)
    with assms x show ?thesis by (intro thrower [of x err]) (simp_all add: invoked1_step(3))
  qed
qed



text \<open>Only the last subscriber of a pass can be one that throws.\<close>

lemma invoked1_thrower_last:
  "k \<in> set (butlast (invoked1 beh arr removed i)) \<Longrightarrow> throws (beh (the (arr ! k))) = None"
proof (induction "length arr - i" arbitrary: i removed)
  case 0
  then show ?case by (simp add: invoked1_step(5))
next
  case (Suc m)
  then have i: "i < length arr" and m: "m = length arr - Suc i" by simp_all
  from i show ?case
  proof (cases rule: invoked1_cases [where beh = beh and removed = removed])
    case skip
    with Suc.prems Suc.hyps(1) [OF m] show ?thesis by simp
  next
    case (thrower x err)
    with Suc.prems show ?thesis by simp
  next
    case (returns x)
    with Suc.prems Suc.hyps(1) [OF m, of "removed \<union> set (unsubscribes1 (calls (beh x)))"]
    show ?thesis by (auto split: if_splits)
  qed
qed




section \<open>Whole passes\<close>

lemma SynchronizeAdmin_pass:
  fixes c :: "'v client2"
  defines "subs \<equiv> syncAdminSubs c"
  shows "if \<exists>x \<in> set subs. throws (beh x) \<noteq> None
         then \<exists>c'. on_SynchronizeAdmin beh e c =
                    Some (Threw (the (throws (beh (last (upto_thrower (\<lambda>x. throws (beh x)) subs))))) c') \<and>
                  calls_between (trace c) (trace c')
                    (map (\<lambda>x. Notified x e) (upto_thrower (\<lambda>x. throws (beh x)) subs))
         else \<exists>c'. on_SynchronizeAdmin beh e c = SynchronizeAdmin_loop beh e (length subs) c' \<and>
                  calls_between (trace c) (trace c') (map (\<lambda>x. Notified x e) subs) \<and>
                  take (length subs) (syncAdminSubs c') = subs \<and>
                  ((\<forall>x \<in> set subs. \<forall>a \<in> set (calls (beh x)). \<not> registers_admin a) \<longrightarrow>
                     on_SynchronizeAdmin beh e c = Some (Returned c'))"
proof -
  let ?arr = "\<lambda>c :: 'v client2. map Some (syncAdminSubs c)"
  let ?nosub = "\<lambda>x. \<forall>a \<in> set (calls (beh x)). \<not> registers_admin a"
  have spec: "\<exists>s'. call_subscriber2 beh e x s =
                 (case throws (beh x) of None \<Rightarrow> Returned s' | Some err \<Rightarrow> Threw err s') \<and> True \<and>
               calls_between (trace s) (trace s') [Notified x e] \<and>
               take (length (?arr s)) (?arr s') = ?arr s \<and>
               (?nosub x \<longrightarrow> length (?arr s') = length (?arr s))" for x and s :: "'v client2"
  proof -
    let ?s1 = "s\<lparr>trace := trace s @ [Notified x e]\<rparr>"
    let ?s' = "fold run_call2 (calls (beh x)) ?s1"
    have "take (length (syncAdminSubs s)) (syncAdminSubs ?s') = syncAdminSubs s"
      using fold_run_call2_facts(4) [of ?s1 "calls (beh x)"] by simp
    then have pre: "take (length (?arr s)) (?arr ?s') = ?arr s"
      by (simp add: take_map)
    have len: "?nosub x \<longrightarrow> length (?arr ?s') = length (?arr s)"
      using fold_run_call2_facts(6) [of "calls (beh x)" ?s1] by simp
    show ?thesis
      using call_subscriber2_eq [of beh e x s] call_subscriber2_calls [of s beh x e] pre len
      by (intro exI [of _ ?s']) simp
  qed
  have start: "take (length subs) (?arr c) = map Some subs"
    by (simp add: subs_def)
  note T = for_of_stable [where arr = ?arr and call = "call_subscriber2 beh e" and I = "\<lambda>_. True"
      and thr = "\<lambda>x. throws (beh x)" and tr = trace and mk = "\<lambda>x. Notified x e"
      and nosub = ?nosub and s = c and xs = subs and i = 0, OF spec _ start]
  show ?thesis
  proof (cases "\<exists>x \<in> set subs. throws (beh x) \<noteq> None")
    case True
    with T show ?thesis
      by (simp add: on_SynchronizeAdmin_def SynchronizeAdmin_loop_def)
  next
    case False
    with T obtain c' where
      r: "for_of ?arr (call_subscriber2 beh e) 0 c = for_of ?arr (call_subscriber2 beh e) (length subs) c'"
      and cb: "calls_between (trace c) (trace c') (map (\<lambda>x. Notified x e) subs)"
      and pre: "take (length subs) (?arr c') = map Some subs"
      and len: "(\<forall>x \<in> set subs. ?nosub x) \<longrightarrow> length (?arr c') = length (?arr c)"
      by auto
    have pre': "take (length subs) (syncAdminSubs c') = subs"
    proof -
      have "map Some (take (length subs) (syncAdminSubs c')) = map Some subs"
        using pre by (simp add: take_map)
      then show ?thesis by (simp add: inj_map_eq_map)
    qed
    have fin: "(\<forall>x \<in> set subs. ?nosub x) \<longrightarrow> on_SynchronizeAdmin beh e c = Some (Returned c')"
    proof
      assume "\<forall>x \<in> set subs. ?nosub x"
      with len have "length (?arr c') \<le> length subs" by (simp add: subs_def)
      then have "for_of ?arr (call_subscriber2 beh e) (length subs) c' = Some (Returned c')"
        by (rule for_of_end)
      with r show "on_SynchronizeAdmin beh e c = Some (Returned c')"
        by (simp add: on_SynchronizeAdmin_def SynchronizeAdmin_loop_def)
    qed
    show ?thesis
      using False r cb pre' fin
      by (auto simp: on_SynchronizeAdmin_def SynchronizeAdmin_loop_def)
  qed
qed

lemma set_registered: "set (registered xs) = {x. Some x \<in> set xs}"
  by (induction xs rule: registered.induct) auto

lemma Synchronize_pass:
  fixes c :: "'v client1" and beh :: "cb_id \<Rightarrow> 'v call1 behaviour"
  defines "arr \<equiv> synchronizeSubscribers c"
  defines "P \<equiv> invoked1 beh arr {} 0"
  shows "if \<exists>k \<in> set P. throws (beh (the (arr ! k))) \<noteq> None
         then \<exists>c'. on_Synchronize beh e c = Some (Threw (the (throws (beh (the (arr ! last P))))) c') \<and>
                  throws (beh (the (arr ! last P))) \<noteq> None \<and>
                  calls_between (trace c) (trace c') (map (\<lambda>k. Notified (the (arr ! k)) e) P)
         else \<exists>c'. on_Synchronize beh e c = Synchronize_loop beh e (length arr) c' \<and>
                  calls_between (trace c) (trace c') (map (\<lambda>k. Notified (the (arr ! k)) e) P) \<and>
                  ((\<forall>k \<in> set P. \<forall>a \<in> set (calls (beh (the (arr ! k)))). \<not> registers_synchronize a) \<longrightarrow>
                     on_Synchronize beh e c = Some (Returned c'))"
proof -
  have inv: "\<forall>k < length arr. synchronizeSubscribers c ! k = (if k \<in> {} then None else arr ! k)"
    by (simp add: arr_def)
  note T = Synchronize_pass_from [of 0 arr c "{}" beh e, OF _ _ inv, folded P_def]
  show ?thesis
  proof (cases "\<exists>k \<in> set P. throws (beh (the (arr ! k))) \<noteq> None")
    case True
    then obtain k where k: "k \<in> set P" "throws (beh (the (arr ! k))) \<noteq> None" by blast
    then have ne: "P \<noteq> []" by auto
    have "k \<notin> set (butlast P)"
      using invoked1_thrower_last [of k beh arr "{}" 0] k(2) unfolding P_def by blast
    with k(1) ne have "k = last P"
      by (metis append_butlast_last_id Un_iff empty_iff empty_set insert_iff list.simps(15) set_append)
    with k(2) ne have cond: "P \<noteq> [] \<and> throws (beh (the (arr ! last P))) \<noteq> None" by simp
    from T [unfolded if_P [OF cond]] cond True show ?thesis
      by (auto simp: arr_def on_Synchronize_def)
  next
    case False
    then have ncond: "\<not> (P \<noteq> [] \<and> throws (beh (the (arr ! last P))) \<noteq> None)"
      using last_in_set by blast
    from T [unfolded if_not_P [OF ncond]] obtain c' where
      r: "Synchronize_loop beh e 0 c = Synchronize_loop beh e (length arr) c'"
      and cb: "calls_between (trace c) (trace c') (map (\<lambda>k. Notified (the (arr ! k)) e) P)"
      and len: "(\<forall>k \<in> set P. \<forall>a \<in> set (calls (beh (the (arr ! k)))). \<not> registers_synchronize a) \<longrightarrow>
                   length (synchronizeSubscribers c') = length (synchronizeSubscribers c)"
      by (auto simp: arr_def)
    have fin: "(\<forall>k \<in> set P. \<forall>a \<in> set (calls (beh (the (arr ! k)))). \<not> registers_synchronize a) \<longrightarrow>
                 on_Synchronize beh e c = Some (Returned c')"
    proof
      assume "\<forall>k \<in> set P. \<forall>a \<in> set (calls (beh (the (arr ! k)))). \<not> registers_synchronize a"
      with len have "length (synchronizeSubscribers c') \<le> length arr" by (simp add: arr_def)
      then have "Synchronize_loop beh e (length arr) c' = Some (Returned c')"
        unfolding Synchronize_loop_def by (rule for_of_end)
      with r show "on_Synchronize beh e c = Some (Returned c')"
        by (simp add: on_Synchronize_def)
    qed
    have "\<exists>c'. on_Synchronize beh e c = Synchronize_loop beh e (length arr) c' \<and>
                  calls_between (trace c) (trace c') (map (\<lambda>k. Notified (the (arr ! k)) e) P) \<and>
                  ((\<forall>k \<in> set P. \<forall>a \<in> set (calls (beh (the (arr ! k)))). \<not> registers_synchronize a) \<longrightarrow>
                     on_Synchronize beh e c = Some (Returned c'))"
      using r cb fin by (intro exI [of _ c']) (simp add: on_Synchronize_def)
    then show ?thesis unfolding if_not_P [OF False] .
  qed
qed

text \<open>A subscriber that throws ends the loop, at whatever point of a pass it is called.\<close>

lemma Synchronize_loop_thrower:
  assumes "i < length (synchronizeSubscribers c)" and "synchronizeSubscribers c ! i = Some d"
    and "throws (beh d) = Some err"
  shows "\<exists>c'. Synchronize_loop beh e i c = Some (Threw err c') \<and>
           calls_between (trace c) (trace c') [Notified d e]"
proof -
  let ?c' = "fold run_call1 (calls (beh d)) (c\<lparr>trace := trace c @ [Notified d e]\<rparr>)"
  have "call_subscriber1 beh e d c = Threw err ?c'"
    using assms(3) by (simp add: call_subscriber1_eq)
  with assms(1,2) have "Synchronize_loop beh e i c = Some (Threw err ?c')"
    unfolding Synchronize_loop_def by (rule for_of_threw)
  with call_subscriber1_calls [of c beh d e] show ?thesis by blast
qed

lemma broadcast2_loop_thrower:
  assumes "i < length (sel c)" and "sel c ! i = d" and "throws (beh d) = Some err"
  shows "\<exists>c'. for_of (\<lambda>c. map Some (sel c)) (call_subscriber2 beh e) i c = Some (Threw err c') \<and>
           calls_between (trace c) (trace c') [Notified d e]"
proof -
  let ?c' = "fold run_call2 (calls (beh d)) (c\<lparr>trace := trace c @ [Notified d e]\<rparr>)"
  have "call_subscriber2 beh e d c = Threw err ?c'"
    using assms(3) by (simp add: call_subscriber2_eq)
  moreover have "i < length (map Some (sel c))" "map Some (sel c) ! i = Some d"
    using assms(1,2) by simp_all
  ultimately have "for_of (\<lambda>c. map Some (sel c)) (call_subscriber2 beh e) i c = Some (Threw err ?c')"
    by (intro for_of_threw [where arr = "\<lambda>c. map Some (sel c)" and x = d]) 
  with call_subscriber2_calls [of c beh d e] show ?thesis by blast
qed





section \<open>The claims\<close>

text \<open>
  C1.  A response arrives whose token \<open>returnId data\<close> is pending, the table holding for it
  the resolver of promise \<open>p\<close> (the handle that the registering send returned).  In any
  state whose table is in order (the constructors establish that, \<open>sendAndAwait\<close> and the
  dispatcher keep it) the listener returns normally; \<open>p\<close> was pending and is now fulfilled
  with the response, no other promise changes, the resolver was called exactly once, the
  entry of the token is gone, and no entry that is left holds the resolver of \<open>p\<close>, so it
  cannot be called a second time.
\<close>

theorem C1_pending_response_settles_once:
  assumes "pending_ok c" and "responseResolvers c (returnId data) = Some p"
  shows "\<exists>c'. setupResolverDispatch data c = Returned c' \<and>
           p < length (promises c) \<and> promises c ! p = Pending \<and>
           promises c' = (promises c)[p := Fulfilled data] \<and>
           promises c' ! p = Fulfilled data \<and>
           trace c' = trace c @ [Resolved p data] \<and>
           responseResolvers c' = (responseResolvers c)(returnId data := None) \<and>
           responseResolvers c' (returnId data) = None \<and>
           p \<notin> ran (responseResolvers c') \<and>
           pending_ok c'"
proof -
  let ?c' = "c\<lparr>promises := (promises c)[p := Fulfilled data],
                 trace := trace c @ [Resolved p data],
                 responseResolvers := (responseResolvers c)(returnId data := None)\<rparr>"
  have run: "setupResolverDispatch data c = Returned ?c'"
    using assms by (rule setupResolverDispatch_pending)
  have bound: "p < length (promises c)" and pend: "promises c ! p = Pending"
    using assms unfolding pending_ok_def by blast+
  have inj: "\<And>t. responseResolvers c t = Some p \<Longrightarrow> t = returnId data"
    using assms unfolding pending_ok_def by blast
  have gone: "p \<notin> ran (responseResolvers ?c')"
    using inj by (auto simp: ran_def split: if_splits)
  have ok: "pending_ok ?c'"
    using assms(1) run by (rule pending_ok_setupResolverDispatch)
  show ?thesis
    using run bound pend gone ok by simp
qed

theorem C1_witness:
  "let c = snd (send2 SendRateHack2 1700000000000 ''0.8f3a2b1c4d5e6'' (15::nat) SledgeClient2);
       data = \<lparr>returnId = ''e56800c4d5e6'', body = (1::nat)\<rparr>
   in pending_ok c \<and> responseResolvers c (returnId data) = Some 0 \<and>
      setupResolverDispatch data c =
        Returned (c\<lparr>promises := [Fulfilled data],
                    trace := trace c @ [Resolved 0 data],
                    responseResolvers := Map.empty\<rparr>)"
proof -
  define c where "c = snd (send2 SendRateHack2 1700000000000 ''0.8f3a2b1c4d5e6'' (15::nat) SledgeClient2)"
  define data where "data = \<lparr>returnId = ''e56800c4d5e6'', body = (1::nat)\<rparr>"
  have c_eq: "c = \<lparr>responseResolvers = [''e56800c4d5e6'' \<mapsto> 0], promises = [Pending],
                   trace = [Emitted ''RateHack'' 15 ''e56800c4d5e6'', Registered ''e56800c4d5e6'' 0],
                   status = Connecting, syncSharedSubs = [], syncAdminSubs = [], statusSubscribers = []\<rparr>"
    by (simp add: c_def send2_def sendAndAwait2_def token_example sendAndAwait_eq SledgeClient2_def Let_def)
  have ok: "pending_ok c"
    unfolding c_def send2_def sendAndAwait2_def Let_def
    by (rule pending_ok_sendAndAwait [OF pending_ok_SledgeClient2])
  have pend: "responseResolvers c (returnId data) = Some 0"
    by (simp add: c_eq data_def)
  from C1_pending_response_settles_once [OF ok pend]
  have "setupResolverDispatch data c =
        Returned (c\<lparr>promises := [Fulfilled data],
                    trace := trace c @ [Resolved 0 data],
                    responseResolvers := Map.empty\<rparr>)"
    by (auto simp: c_eq data_def setupResolverDispatch_def resolve_def)
  with ok pend show ?thesis
    unfolding c_def data_def Let_def by simp
qed

text \<open>
  C2.  A response arrives whose token matches no pending entry.  The listener throws the
  error \<open>Got response with unknown returnId: <token>\<close>, and the state at the throw is the
  state before the event: the table, every promise and the record of resolver calls are
  unchanged.
\<close>

theorem C2_unknown_token_is_reported:
  assumes "responseResolvers c (returnId data) = None"
  shows "setupResolverDispatch data c =
           Threw (Error (''Got response with unknown returnId: '' @ returnId data)) c"
  using assms by (simp add: setupResolverDispatch_def)

text \<open>
  The example has one request pending when the response arrives; its entry and its promise
  are as they were after the throw.
\<close>

theorem C2_witness:
  "responseResolvers (snd (send2 SendRateHack2 1700000000000 ''0.8f3a2b1c4d5e6'' (15::nat) SledgeClient2))
     ''e56800c4d5e6'' = Some 0 \<and>
   promises (snd (send2 SendRateHack2 1700000000000 ''0.8f3a2b1c4d5e6'' (15::nat) SledgeClient2)) =
     [Pending] \<and>
   responseResolvers (snd (send2 SendRateHack2 1700000000000 ''0.8f3a2b1c4d5e6'' (15::nat) SledgeClient2))
     (returnId \<lparr>returnId = ''7f'', body = (0::nat)\<rparr>) = None \<and>
   setupResolverDispatch \<lparr>returnId = ''7f'', body = (0::nat)\<rparr>
       (snd (send2 SendRateHack2 1700000000000 ''0.8f3a2b1c4d5e6'' (15::nat) SledgeClient2)) =
     Threw (Error ''Got response with unknown returnId: 7f'')
       (snd (send2 SendRateHack2 1700000000000 ''0.8f3a2b1c4d5e6'' (15::nat) SledgeClient2))"
proof -
  let ?c = "snd (send2 SendRateHack2 1700000000000 ''0.8f3a2b1c4d5e6'' (15::nat) SledgeClient2)"
  have table: "responseResolvers ?c = [''e56800c4d5e6'' \<mapsto> 0]" and proms: "promises ?c = [Pending]"
    by (simp_all add: send2_def sendAndAwait2_def token_example sendAndAwait_eq SledgeClient2_def
        Let_def)
  have none: "responseResolvers ?c (returnId \<lparr>returnId = ''7f'', body = (0::nat)\<rparr>) = None"
    by (simp add: table)
  from C2_unknown_token_is_reported [OF none] table proms none show ?thesis
    by simp
qed

text \<open>
  C3, as amended.  Every send method of either revision, for every payload, does this and
  in this order: it generates the token; it emits the payload with the token under the
  method's event name; it creates a new pending promise and stores that promise's resolver
  under the token; it returns the promise.  Emission comes before registration.
\<close>

theorem C3_send_steps_in_order:
  "send1 m now rnd data c =
     (length (promises c),
      c\<lparr>trace := trace c @ [Emitted (eventName1 m) data (generateUniqueReturnId1 now rnd),
                             Registered (generateUniqueReturnId1 now rnd) (length (promises c))],
        promises := promises c @ [Pending],
        responseResolvers :=
          (responseResolvers c)(generateUniqueReturnId1 now rnd \<mapsto> length (promises c))\<rparr>) \<and>
   send2 m2 now rnd16 data2 c2 =
     (length (promises c2),
      c2\<lparr>trace := trace c2 @ [Emitted (eventName2 m2) data2 (generateUniqueReturnId2 now rnd16),
                               Registered (generateUniqueReturnId2 now rnd16) (length (promises c2))],
         promises := promises c2 @ [Pending],
         responseResolvers :=
           (responseResolvers c2)(generateUniqueReturnId2 now rnd16 \<mapsto> length (promises c2))\<rparr>)"
  by (simp add: send1_def send2_def sendAndAwait1_def sendAndAwait2_def sendAndAwait_eq Let_def)

text \<open>
  The order the claim gives (register, then emit) is not the order of the code: a
  \<open>RateHack\<close> request on a new client emits first and registers second.
\<close>

theorem C3_counterexample:
  "trace (snd (send2 SendRateHack2 1700000000000 ''0.8f3a2b1c4d5e6'' (15::nat) SledgeClient2)) =
     [Emitted ''RateHack'' 15 ''e56800c4d5e6'', Registered ''e56800c4d5e6'' 0] \<and>
   trace (snd (send2 SendRateHack2 1700000000000 ''0.8f3a2b1c4d5e6'' (15::nat) SledgeClient2)) \<noteq>
     [Registered ''e56800c4d5e6'' 0, Emitted ''RateHack'' 15 ''e56800c4d5e6'']"
  by (simp add: send2_def sendAndAwait2_def token_example sendAndAwait_eq SledgeClient2_def Let_def)







text \<open>
  C6, as amended.  Two tokens generated in the same millisecond are equal exactly when their
  random parts are equal: \<open>floor (256 * Math.random())\<close> in the single-channel revision, the
  last six characters of \<open>Math.random().toString(16)\<close> in the two-channel revision.  For
  the single-channel revision the same holds across times: the tokens are equal exactly
  when the two sums of masked time and random byte are.
\<close>

theorem C6_tokens_differ_iff_random_parts_differ:
  "(generateUniqueReturnId1 now1 r1 = generateUniqueReturnId1 now2 r2 \<longleftrightarrow>
      (ToInt32 now1 AND NOT 255) + \<lfloor>r1 * 256\<rfloor> = (ToInt32 now2 AND NOT 255) + \<lfloor>r2 * 256\<rfloor>) \<and>
   (generateUniqueReturnId1 now r1 = generateUniqueReturnId1 now r2 \<longleftrightarrow> \<lfloor>r1 * 256\<rfloor> = \<lfloor>r2 * 256\<rfloor>) \<and>
   (generateUniqueReturnId2 now s1 = generateUniqueReturnId2 now s2 \<longleftrightarrow> slice_neg6 s1 = slice_neg6 s2)"
  by (simp add: generateUniqueReturnId1_def generateUniqueReturnId2_def toString16_inj)

text \<open>
  Two sends back to back in one millisecond, with random draws 1/2 and 257/512, get the
  same token; the second registration replaces the first in the pending table.
\<close>

theorem C6_counterexample:
  "trace (snd (send1 SendAddHack 1700000000000 (257/512) (16::nat)
             (snd (send1 SendRateHack1 1700000000000 (1/2) 15 SledgeClient1)))) =
     [Emitted ''RateHack'' 15 ''-301a9780'', Registered ''-301a9780'' 0,
      Emitted ''AddHack'' 16 ''-301a9780'', Registered ''-301a9780'' 1] \<and>
   responseResolvers (snd (send1 SendAddHack 1700000000000 (257/512) (16::nat)
             (snd (send1 SendRateHack1 1700000000000 (1/2) 15 SledgeClient1)))) =
     [''-301a9780'' \<mapsto> 1]"
  by (simp add: send1_def sendAndAwait1_def token_example1 sendAndAwait_eq SledgeClient1_def Let_def)

text \<open>
  C7, as amended.  If a subscriber throws when a broadcast pass calls it, the pass ends at
  that subscriber: the error leaves the listener, and after the call of that subscriber
  the pass calls no subscriber.  This holds at whatever point of a pass the subscriber is
  called.  For a whole pass it means: in the two-channel revision the listener calls the
  subscribers registered at the event up to and including the first that throws, and
  throws its error; in the single-channel revision the subscriber that throws is the last
  one the listener calls.
\<close>

theorem C7_throw_ends_the_pass:
  fixes c1 :: "'v client1" and c2 :: "'v client2"
    and beh1 :: "cb_id \<Rightarrow> 'v call1 behaviour" and beh2 :: "cb_id \<Rightarrow> 'v call2 behaviour"
  shows
  "(i < length (synchronizeSubscribers c1) \<and> synchronizeSubscribers c1 ! i = Some d \<and>
      throws (beh1 d) = Some err \<longrightarrow>
      (\<exists>c'. Synchronize_loop beh1 e i c1 = Some (Threw err c') \<and>
            calls_between (trace c1) (trace c') [Notified d e])) \<and>
   (i < length (syncSharedSubs c2) \<and> syncSharedSubs c2 ! i = d \<and> throws (beh2 d) = Some err \<longrightarrow>
      (\<exists>c'. SynchronizeShared_loop beh2 e i c2 = Some (Threw err c') \<and>
            calls_between (trace c2) (trace c') [Notified d e])) \<and>
   (i < length (syncAdminSubs c2) \<and> syncAdminSubs c2 ! i = d \<and> throws (beh2 d) = Some err \<longrightarrow>
      (\<exists>c'. SynchronizeAdmin_loop beh2 e i c2 = Some (Threw err c') \<and>
            calls_between (trace c2) (trace c') [Notified d e])) \<and>
   (let arr = synchronizeSubscribers c1; pass = invoked1 beh1 arr {} 0 in
      (\<exists>k \<in> set pass. throws (beh1 (the (arr ! k))) \<noteq> None) \<longrightarrow>
      (\<exists>c'. on_Synchronize beh1 e c1 =
              Some (Threw (the (throws (beh1 (the (arr ! last pass))))) c') \<and>
            throws (beh1 (the (arr ! last pass))) \<noteq> None \<and>
            calls_between (trace c1) (trace c') (map (\<lambda>k. Notified (the (arr ! k)) e) pass))) \<and>
   (let subs = syncSharedSubs c2; first = upto_thrower (\<lambda>x. throws (beh2 x)) subs in
      (\<exists>x \<in> set subs. throws (beh2 x) \<noteq> None) \<longrightarrow>
      (\<exists>c'. on_SynchronizeShared beh2 e c2 = Some (Threw (the (throws (beh2 (last first)))) c') \<and>
            calls_between (trace c2) (trace c') (map (\<lambda>x. Notified x e) first))) \<and>
   (let subs = syncAdminSubs c2; first = upto_thrower (\<lambda>x. throws (beh2 x)) subs in
      (\<exists>x \<in> set subs. throws (beh2 x) \<noteq> None) \<longrightarrow>
      (\<exists>c'. on_SynchronizeAdmin beh2 e c2 = Some (Threw (the (throws (beh2 (last first)))) c') \<and>
            calls_between (trace c2) (trace c') (map (\<lambda>x. Notified x e) first)))"
proof -
  have single: "\<exists>c'. Synchronize_loop beh1 e i c1 = Some (Threw err c') \<and>
                  calls_between (trace c1) (trace c') [Notified d e]"
    if "i < length (synchronizeSubscribers c1) \<and> synchronizeSubscribers c1 ! i = Some d \<and>
        throws (beh1 d) = Some err"
    using that by (intro Synchronize_loop_thrower) simp_all
  have shared: "\<exists>c'. SynchronizeShared_loop beh2 e i c2 = Some (Threw err c') \<and>
                  calls_between (trace c2) (trace c') [Notified d e]"
    if "i < length (syncSharedSubs c2) \<and> syncSharedSubs c2 ! i = d \<and> throws (beh2 d) = Some err"
    unfolding SynchronizeShared_loop_def
    using that by (intro broadcast2_loop_thrower) simp_all
  have admin: "\<exists>c'. SynchronizeAdmin_loop beh2 e i c2 = Some (Threw err c') \<and>
                  calls_between (trace c2) (trace c') [Notified d e]"
    if "i < length (syncAdminSubs c2) \<and> syncAdminSubs c2 ! i = d \<and> throws (beh2 d) = Some err"
    unfolding SynchronizeAdmin_loop_def
    using that by (intro broadcast2_loop_thrower) simp_all
  have single_pass:
    "\<exists>c'. on_Synchronize beh1 e c1 =
            Some (Threw (the (throws (beh1 (the (synchronizeSubscribers c1 !
              last (invoked1 beh1 (synchronizeSubscribers c1) {} 0)))))) c') \<and>
          throws (beh1 (the (synchronizeSubscribers c1 !
              last (invoked1 beh1 (synchronizeSubscribers c1) {} 0)))) \<noteq> None \<and>
          calls_between (trace c1) (trace c')
            (map (\<lambda>k. Notified (the (synchronizeSubscribers c1 ! k)) e)
               (invoked1 beh1 (synchronizeSubscribers c1) {} 0))"
    if t: "\<exists>k \<in> set (invoked1 beh1 (synchronizeSubscribers c1) {} 0).
             throws (beh1 (the (synchronizeSubscribers c1 ! k))) \<noteq> None"
    using Synchronize_pass [where beh = beh1 and c = c1 and e = e, unfolded if_P [OF t]] .
  have shared_pass:
    "\<exists>c'. on_SynchronizeShared beh2 e c2 =
            Some (Threw (the (throws (beh2 (last (upto_thrower (\<lambda>x. throws (beh2 x)) (syncSharedSubs c2)))))) c') \<and>
          calls_between (trace c2) (trace c')
            (map (\<lambda>x. Notified x e) (upto_thrower (\<lambda>x. throws (beh2 x)) (syncSharedSubs c2)))"
    if t: "\<exists>x \<in> set (syncSharedSubs c2). throws (beh2 x) \<noteq> None"
    using SynchronizeShared_pass [where beh = beh2 and c = c2 and e = e, unfolded if_P [OF t]] .
  have admin_pass:
    "\<exists>c'. on_SynchronizeAdmin beh2 e c2 =
            Some (Threw (the (throws (beh2 (last (upto_thrower (\<lambda>x. throws (beh2 x)) (syncAdminSubs c2)))))) c') \<and>
          calls_between (trace c2) (trace c')
            (map (\<lambda>x. Notified x e) (upto_thrower (\<lambda>x. throws (beh2 x)) (syncAdminSubs c2)))"
    if t: "\<exists>x \<in> set (syncAdminSubs c2). throws (beh2 x) \<noteq> None"
    using SynchronizeAdmin_pass [where beh = beh2 and c = c2 and e = e, unfolded if_P [OF t]] .
  show ?thesis
    unfolding Let_def
    using single shared admin single_pass shared_pass admin_pass
    by (intro conjI impI) assumption+
qed

text \<open>
  The examples have the thrower in the middle; the subscriber before it unsubscribes itself
  during the pass, or sends a request during the pass.
\<close>

theorem C7_witness:
  "synchronizeSubscribers three_subscribers1 ! 1 = Some 2 \<and>
   throws (calling_and_throwing 1 (CallUnsubscribe1 (UnsubscribeSynchronize 0)) [2] 2 :: nat call1 behaviour) =
     Some (Error ''boom'') \<and>
   (\<exists>c'. Synchronize_loop (calling_and_throwing 1 (CallUnsubscribe1 (UnsubscribeSynchronize 0)) [2])
            42 1 three_subscribers1 = Some (Threw (Error ''boom'') c') \<and>
         calls_between (trace three_subscribers1) (trace c') [Notified 2 42]) \<and>
   invoked1 (calling_and_throwing 1 (CallUnsubscribe1 (UnsubscribeSynchronize 0)) [2] :: nat \<Rightarrow> nat call1 behaviour)
     (synchronizeSubscribers three_subscribers1) {} 0 = [0, 1] \<and>
   (\<exists>c'. on_Synchronize (calling_and_throwing 1 (CallUnsubscribe1 (UnsubscribeSynchronize 0)) [2])
            42 three_subscribers1 = Some (Threw (Error ''boom'') c') \<and>
         calls_between (trace three_subscribers1) (trace c') [Notified 1 42, Notified 2 42]) \<and>
   upto_thrower
     (\<lambda>x. throws (calling_and_throwing 1 (CallSend2 SendRateHack2 1700000000000 ''0.8f3a2b1c4d5e6'' 15) [2] x :: nat call2 behaviour))
     (syncSharedSubs three_subscribers2) = [1, 2] \<and>
   (\<exists>c'. SynchronizeShared_loop
            (calling_and_throwing 1 (CallSend2 SendRateHack2 1700000000000 ''0.8f3a2b1c4d5e6'' 15) [2])
            42 1 three_subscribers2 = Some (Threw (Error ''boom'') c') \<and>
         calls_between (trace three_subscribers2) (trace c') [Notified 2 42]) \<and>
   (\<exists>c'. on_SynchronizeShared
            (calling_and_throwing 1 (CallSend2 SendRateHack2 1700000000000 ''0.8f3a2b1c4d5e6'' 15) [2])
            42 three_subscribers2 = Some (Threw (Error ''boom'') c') \<and>
         calls_between (trace three_subscribers2) (trace c') [Notified 1 42, Notified 2 42]) \<and>
   upto_thrower (\<lambda>x. throws (throwing [5] x :: nat call2 behaviour)) (syncAdminSubs three_subscribers2) =
     [4, 5] \<and>
   (\<exists>c'. SynchronizeAdmin_loop (throwing [5]) 42 1 three_subscribers2 = Some (Threw (Error ''boom'') c') \<and>
         calls_between (trace three_subscribers2) (trace c') [Notified 5 42]) \<and>
   (\<exists>c'. on_SynchronizeAdmin (throwing [5]) 42 three_subscribers2 = Some (Threw (Error ''boom'') c') \<and>
         calls_between (trace three_subscribers2) (trace c') [Notified 4 42, Notified 5 42])"
proof -
  let ?b1 = "calling_and_throwing 1 (CallUnsubscribe1 (UnsubscribeSynchronize 0)) [2] :: nat \<Rightarrow> nat call1 behaviour"
  let ?b2 = "calling_and_throwing 1 (CallSend2 SendRateHack2 1700000000000 ''0.8f3a2b1c4d5e6'' 15) [2] :: nat \<Rightarrow> nat call2 behaviour"
  have subs: "synchronizeSubscribers three_subscribers1 = [Some 1, Some 2, Some 3]"
    "syncSharedSubs three_subscribers2 = [1, 2, 3]" "syncAdminSubs three_subscribers2 = [4, 5, 6]"
    by (simp_all add: three_subscribers1_eq three_subscribers2_eq)
  note T = C7_throw_ends_the_pass [where ?beh1.0 = ?b1 and ?beh2.0 = ?b2 and ?c1.0 = three_subscribers1
      and ?c2.0 = three_subscribers2 and e = 42 and i = 1 and d = 2 and err = "Error ''boom''"]
  note T' = C7_throw_ends_the_pass [where ?beh1.0 = quiet and ?beh2.0 = "throwing [5]"
      and ?c1.0 = three_subscribers1 and ?c2.0 = three_subscribers2 and e = 42 and i = 1 and d = 5
      and err = "Error ''boom''"]
  from T have a:
    "\<exists>c'. Synchronize_loop ?b1 42 1 three_subscribers1 = Some (Threw (Error ''boom'') c') \<and>
         calls_between (trace three_subscribers1) (trace c') [Notified 2 42]"
    "\<exists>c'. on_Synchronize ?b1 42 three_subscribers1 = Some (Threw (Error ''boom'') c') \<and>
         calls_between (trace three_subscribers1) (trace c') [Notified 1 42, Notified 2 42]"
    "\<exists>c'. SynchronizeShared_loop ?b2 42 1 three_subscribers2 = Some (Threw (Error ''boom'') c') \<and>
         calls_between (trace three_subscribers2) (trace c') [Notified 2 42]"
    "\<exists>c'. on_SynchronizeShared ?b2 42 three_subscribers2 = Some (Threw (Error ''boom'') c') \<and>
         calls_between (trace three_subscribers2) (trace c') [Notified 1 42, Notified 2 42]"
    by (auto simp: subs Let_def invoked1.simps calling_and_throwing_def)
  from T' have b:
    "\<exists>c'. SynchronizeAdmin_loop (throwing [5]) 42 1 three_subscribers2 = Some (Threw (Error ''boom'') c') \<and>
         calls_between (trace three_subscribers2) (trace c') [Notified 5 42]"
    "\<exists>c'. on_SynchronizeAdmin (throwing [5]) 42 three_subscribers2 = Some (Threw (Error ''boom'') c') \<and>
         calls_between (trace three_subscribers2) (trace c') [Notified 4 42, Notified 5 42]"
    by (simp_all add: subs Let_def throwing_def)
  from a b show ?thesis
    by (simp add: subs invoked1.simps calling_and_throwing_def throwing_def)
qed

text \<open>
  The sentence as the specification has it fails: of the single-channel subscribers 1, 2
  and 3, of which 2 throws, the listener calls 1 and 2 and throws; 3 is never called.
\<close>

theorem C7_counterexample:
  "on_Synchronize (throwing [2]) 42 three_subscribers1 =
     Some (Threw (Error ''boom'') (three_subscribers1\<lparr>trace := [Notified 1 42, Notified 2 42]\<rparr>))"
  by (simp add: on_Synchronize_def Synchronize_loop_def for_of.simps call_subscriber1_def
      throwing_def three_subscribers1_eq Let_def)




text \<open>
  C9, as amended.  \<open>subscribeSynchronize\<close> and \<open>subscribeStatus\<close> append the callback to
  their subscriber array and return an unsubscribe closure; calling such a closure twice
  leaves the state that one call leaves.  \<open>subscribeSyncAdmin\<close> and \<open>subscribeSyncShared\<close>
  append the callback and return nothing.
\<close>

theorem C9_subscribe_and_unsubscribe:
  "subscribeSynchronize n c1 =
     (Some (UnsubscribeSynchronize (length (synchronizeSubscribers c1))),
      c1\<lparr>synchronizeSubscribers := synchronizeSubscribers c1 @ [Some n]\<rparr>) \<and>
   unsubscribe1 u1 (unsubscribe1 u1 s1) = unsubscribe1 u1 s1 \<and>
   subscribeStatus n c2 =
     (Some (UnsubscribeStatus n), c2\<lparr>statusSubscribers := statusSubscribers c2 @ [n]\<rparr>) \<and>
   unsubscribe2 u2 (unsubscribe2 u2 s2) = unsubscribe2 u2 s2 \<and>
   subscribeSyncAdmin n c2 = (None, c2\<lparr>syncAdminSubs := syncAdminSubs c2 @ [n]\<rparr>) \<and>
   subscribeSyncShared n c2 = (None, c2\<lparr>syncSharedSubs := syncSharedSubs c2 @ [n]\<rparr>)"
proof -
  have i1: "unsubscribe1 u1 (unsubscribe1 u1 s1) = unsubscribe1 u1 s1"
    by (cases u1) simp
  have i2: "unsubscribe2 u2 (unsubscribe2 u2 s2) = unsubscribe2 u2 s2"
    by (cases u2) simp
  show ?thesis
    using i1 i2
    by (simp add: subscribeSynchronize_def subscribeStatus_def subscribeSyncAdmin_def
        subscribeSyncShared_def)
qed

text \<open>The broadcast subscribe methods of the two-channel revision return \<open>undefined\<close>.\<close>

theorem C9_counterexample:
  "fst (subscribeSyncAdmin 1 (SledgeClient2 :: nat client2)) = None \<and>
   fst (subscribeSyncShared 1 (SledgeClient2 :: nat client2)) = None"
  by (simp add: subscribeSyncAdmin_def subscribeSyncShared_def)

lemma placeholders_addHack_sql: "placeholders addHack_sql = 3"
  by (simp add: placeholders_def addHack_sql_def)

lemma stmt_run_three_values:
  "stmt_run addHack_sql insert_hacks [SqlText n, SqlText d, SqlInteger l] \<lparr>hacks = []\<rparr> =
     Returned \<lparr>hacks = [\<lparr>row_id = 1, row_name = SqlText n, row_description = SqlText d,
                         row_location = SqlInteger l\<rparr>]\<rparr>"
  by (simp add: stmt_run_def placeholders_addHack_sql)

text \<open>
  C10.  The statement of \<open>addHack\<close> has three placeholders and the call of \<open>run\<close> binds
  two values, the name and the description.  So for every hack and every database,
  \<open>addHack\<close> raises the binding's range error and the database is as it was: no row is
  inserted and no location is written.
\<close>

theorem C10_addHack_always_raises:
  "placeholders addHack_sql = 3 \<and>
   addHack_params hack = [SqlText (name hack), SqlText (description hack)] \<and>
   addHack hack db = Threw (RangeError ''Too few parameter values were provided'') db"
  by (simp add: addHack_def stmt_run_def placeholders_addHack_sql addHack_params_def)

end
